theory Spec2Isabelle
  imports
    Complex_Main
    "HOL-Library.AList"
    "HOL-Library.Sublist"
    "HOL-Library.Multiset"
    "HOL-Library.Char_ord"
    "HOL-Library.List_Lexorder"
begin

section \<open>Parallel keyword search: the model\<close>

text \<open>
  The repository holds two command line tools, \<^verbatim>\<open>search_threading.py\<close> and
  \<^verbatim>\<open>search_multiprocessing.py\<close>. Both enumerate the files of a directory, cut the
  sorted file list into chunks, scan every chunk for the keywords and merge the partial
  results. The functions \<^verbatim>\<open>chunked\<close> and \<^verbatim>\<open>scan_files\<close> are the same text in both
  files, so each is embedded once.

  A path is represented by the string that \<^verbatim>\<open>str(p)\<close> gives for it.
\<close>

type_synonym path = string

subsection \<open>chunked\<close>

text \<open>
  \<^verbatim>\<open>
  def chunked(seq, n):
      if n <= 0:
          n = 1
      k = max(1, len(seq) // n + (1 if len(seq) % n else 0))
      for i in range(0, len(seq), k):
          yield seq[i:i+k]
  \<close>
  The worker count is a Python integer, hence \<^typ>\<open>int\<close>. For a positive divisor
  Python's \<^verbatim>\<open>//\<close> and \<^verbatim>\<open>%\<close> are \<open>div\<close> and \<open>mod\<close> on \<^typ>\<open>int\<close>.
\<close>

definition worker_count :: "int \<Rightarrow> int" where
  "worker_count n = (if n \<le> 0 then 1 else n)"

definition chunk_size :: "'a list \<Rightarrow> int \<Rightarrow> nat" where
  "chunk_size seq n =
     (let m = worker_count n; len = int (length seq)
      in nat (max 1 (len div m + (if len mod m \<noteq> 0 then 1 else 0))))"

text \<open>
  \<^verbatim>\<open>range(i, stop, k)\<close> for a step \<open>k\<close>. Python rejects a zero step with a ValueError;
  \<open>chunked\<close> always passes \<open>max(1, ...)\<close>, so the zero-step branch below is never
  taken by it (lemma \<open>chunk_size_pos\<close>).
\<close>

function range_step :: "nat \<Rightarrow> nat \<Rightarrow> nat \<Rightarrow> nat list" where
  "range_step i stop k =
     (if k = 0 \<or> stop \<le> i then [] else i # range_step (i + k) stop k)"
  by pat_completeness auto
termination
  by (relation "measure (\<lambda>(i, stop, k). stop - i)") auto

declare range_step.simps [simp del]

definition chunked :: "'a list \<Rightarrow> int \<Rightarrow> 'a list list" where
  "chunked seq n =
     (let k = chunk_size seq n
      in map (\<lambda>i. take k (drop i seq)) (range_step 0 (length seq) k))"

text \<open>The partitioner's contract in the words of the specification: the chunk size is
  \<open>ceil(len(files) / W)\<close>, with \<open>W\<close> replaced by a positive default when it is not positive.\<close>

definition spec_chunk_size :: "'a list \<Rightarrow> int \<Rightarrow> nat" where
  "spec_chunk_size files W = nat \<lceil>real (length files) / real_of_int (worker_count W)\<rceil>"

text \<open>
  Consecutive chunks of that size until the list is used up: none for the empty list,
  otherwise \<open>ceil(len(files) / k)\<close> of them, the \<open>j\<close>-th being \<open>files[j*k : j*k + k]\<close>.
\<close>

definition spec_chunk_count :: "'a list \<Rightarrow> int \<Rightarrow> nat" where
  "spec_chunk_count files W =
     (if files = [] then 0
      else nat \<lceil>real (length files) / real (spec_chunk_size files W)\<rceil>)"

definition spec_chunks :: "'a list \<Rightarrow> int \<Rightarrow> 'a list list" where
  "spec_chunks files W =
     map (\<lambda>j. take (spec_chunk_size files W) (drop (j * spec_chunk_size files W) files))
       [0..<spec_chunk_count files W]"

subsection \<open>The Python runtime and the file system\<close>

text \<open>
  What the program takes from outside its own text:
  \<^item> \<open>lower\<close> is \<^verbatim>\<open>str.lower\<close>. Nothing is assumed about it, so every theorem holds for
    the full Unicode lower-casing as well as for the ASCII one used in the examples.
  \<^item> \<open>read_text p\<close> is \<^verbatim>\<open>p.read_text(encoding="utf-8", errors="ignore")\<close>: the decoded
    content, or the exception raised (with \<^verbatim>\<open>errors="ignore"\<close> undecodable bytes are
    dropped, so decoding itself does not raise).
  \<^item> \<open>root_kind\<close> says what looking up the path given as \<^verbatim>\<open>--path\<close> gives: a directory;
    something that is not a directory; nothing (the lookup fails with "no such file or
    directory" or "not a directory" on a parent); or an operating system error of another
    kind, such as "file name too long" or "permission denied" on a parent directory.
  \<^item> \<open>pattern_error\<close> is the exception with which \<^verbatim>\<open>Path.glob\<close> rejects a pattern, if it
    does: \<^verbatim>\<open>ValueError\<close> for the empty pattern, \<^verbatim>\<open>NotImplementedError\<close> for a pattern that
    is not relative.
  \<^item> \<open>matches dir pattern\<close> lists, in the order the operating system yields them, the paths
    under the directory \<open>dir\<close> that an accepted pattern selects.
  \<^item> \<open>cpu_count\<close> is \<^verbatim>\<open>multiprocessing.cpu_count()\<close>.
\<close>

datatype read_error = FileNotFoundError | PermissionError | IsADirectoryError | OSError

datatype root_kind = Missing | NotADirectory | Directory | Unreachable

datatype glob_error = ValueError | NotImplementedError | RootOSError

record world =
  lower :: "string \<Rightarrow> string"
  read_text :: "path \<Rightarrow> read_error + string"
  root_kind :: "path \<Rightarrow> root_kind"
  pattern_error :: "string \<Rightarrow> glob_error option"
  matches :: "path \<Rightarrow> string \<Rightarrow> path list"
  cpu_count :: int

text \<open>
  \<^verbatim>\<open>root.glob(pattern)\<close>, consumed to the end. \<^verbatim>\<open>pathlib\<close> checks the pattern first. It then
  asks \<^verbatim>\<open>is_dir\<close> of the root: that answers False for a root that is missing or is not a
  directory, and then nothing is yielded; it raises \<^verbatim>\<open>OSError\<close> when the lookup of the root
  fails in another way.
\<close>

definition glob :: "world \<Rightarrow> path \<Rightarrow> string \<Rightarrow> glob_error + path list" where
  "glob w dir pattern =
     (case pattern_error w pattern of
        Some e \<Rightarrow> Inl e
      | None \<Rightarrow>
          (case root_kind w dir of
             Directory \<Rightarrow> Inr (matches w dir pattern)
           | Missing \<Rightarrow> Inr []
           | NotADirectory \<Rightarrow> Inr []
           | Unreachable \<Rightarrow> Inl RootOSError))"

subsection \<open>Result dictionaries\<close>

text \<open>
  A Python \<^verbatim>\<open>Dict[str, List[str]]\<close> is an association list in insertion order.
  \<^const>\<open>AList.update\<close> overwrites the value of a key that is present, in place, and puts a
  new key last, as assignment to a dictionary entry does. Indexing a missing key raises
  \<^verbatim>\<open>KeyError\<close>.
\<close>

type_synonym result = "(string \<times> path list) list"

datatype error = KeyError string | GlobError glob_error

text \<open>\<^verbatim>\<open>{kw: [] for kw in keywords}\<close>\<close>

definition empty_result :: "string list \<Rightarrow> result" where
  "empty_result keywords = fold (\<lambda>kw d. AList.update kw [] d) keywords []"

subsection \<open>scan_files\<close>

text \<open>
  \<^verbatim>\<open>
  def scan_files(files, keywords):
      out = {kw: [] for kw in keywords}
      lower_keywords = [kw.lower() for kw in keywords]
      for p in files:
          try:
              text = p.read_text(encoding="utf-8", errors="ignore").lower()
          except Exception:
              continue
          for kw, lkw in zip(keywords, lower_keywords):
              if lkw in text:
                  out[kw].append(str(p))
      return out
  \<close>
  Python's \<^verbatim>\<open>lkw in text\<close> on strings is containment as a contiguous substring, which is
  \<^const>\<open>sublist\<close>.
\<close>

text \<open>The inner loop over \<^verbatim>\<open>zip(keywords, lower_keywords)\<close> for one file.\<close>

fun scan_keywords :: "string \<Rightarrow> path \<Rightarrow> (string \<times> string) list \<Rightarrow> result \<Rightarrow> error + result" where
  "scan_keywords text p [] out = Inr out"
| "scan_keywords text p ((kw, lkw) # rest) out =
     (if sublist lkw text
      then (case map_of out kw of
              None \<Rightarrow> Inl (KeyError kw)
            | Some l \<Rightarrow> scan_keywords text p rest (AList.update kw (l @ [p]) out))
      else scan_keywords text p rest out)"

text \<open>The outer loop over the files.\<close>

fun scan_loop :: "world \<Rightarrow> path list \<Rightarrow> (string \<times> string) list \<Rightarrow> result \<Rightarrow> error + result" where
  "scan_loop w [] kws out = Inr out"
| "scan_loop w (p # ps) kws out =
     (case read_text w p of
        Inl _ \<Rightarrow> scan_loop w ps kws out
      | Inr content \<Rightarrow>
          (case scan_keywords (lower w content) p kws out of
             Inl e \<Rightarrow> Inl e
           | Inr out' \<Rightarrow> scan_loop w ps kws out'))"

definition scan_files :: "world \<Rightarrow> path list \<Rightarrow> string list \<Rightarrow> error + result" where
  "scan_files w files keywords =
     (let out = empty_result keywords;
          lower_keywords = map (lower w) keywords
      in scan_loop w files (zip keywords lower_keywords) out)"

subsection \<open>merge and merge_into\<close>

text \<open>
  \<^verbatim>\<open>
  def merge(a, b):                      # search_multiprocessing.py
      for k, v in b.items():
          a.setdefault(k, []).extend(v)
      return a

  def merge_into(dst, src):             # search_threading.py
      for k, v in src.items():
          dst[k].extend(v)
  \<close>
\<close>

fun merge :: "result \<Rightarrow> result \<Rightarrow> result" where
  "merge a [] = a"
| "merge a ((k, v) # b) =
     merge (AList.update k ((case map_of a k of None \<Rightarrow> [] | Some l \<Rightarrow> l) @ v) a) b"

fun merge_into :: "result \<Rightarrow> result \<Rightarrow> error + result" where
  "merge_into dst [] = Inr dst"
| "merge_into dst ((k, v) # src) =
     (case map_of dst k of
        None \<Rightarrow> Inl (KeyError k)
      | Some l \<Rightarrow> merge_into (AList.update k (l @ v) dst) src)"

subsection \<open>The two drivers\<close>

text \<open>
  Workers run concurrently, but each scans its own chunk into a private dictionary, and
  what is shared is touched by one worker at a time: in the threading variant the merge
  runs under the lock, in the multiprocessing variant the main process merges the parts
  one by one as they arrive on the queue. A run is therefore determined by the order in
  which the chunks' parts are merged. That order is the parameter \<open>sched\<close>: it maps the
  list of chunks, in the order the workers were started, to the same chunks in the order
  of merging.

  A worker that raises delivers nothing; the model reports its error in place of a
  result for the run. Neither \<^verbatim>\<open>main\<close> catches an exception of the enumeration: it ends
  the run before any scanning, and the model reports it in place of a result.
\<close>

definition permutes :: "(path list list \<Rightarrow> path list list) \<Rightarrow> bool" where
  "permutes sched = (\<forall>chunks. mset (sched chunks) = mset chunks)"

text \<open>
  \<^verbatim>\<open>sorted(root.glob(args.glob))\<close>. \<^verbatim>\<open>Path\<close> objects are ordered by their sequences of
  components, each component compared as a string: \<^verbatim>\<open>srt/a/x.txt\<close> comes before
  \<^verbatim>\<open>srt/a.txt\<close>. \<^verbatim>\<open>sorted\<close> is stable, as \<^const>\<open>sort_key\<close> is.
\<close>

fun path_parts :: "path \<Rightarrow> string list" where
  "path_parts [] = [[]]"
| "path_parts (c # cs) =
     (if c = CHR ''/'' then [] # path_parts cs
      else (case path_parts cs of
              [] \<Rightarrow> [[c]]
            | part # rest \<Rightarrow> (c # part) # rest))"

definition enumerate_files :: "world \<Rightarrow> path \<Rightarrow> string \<Rightarrow> glob_error + path list" where
  "enumerate_files w dir pattern =
     (case glob w dir pattern of
        Inl e \<Rightarrow> Inl e
      | Inr found \<Rightarrow> Inr (sort_key path_parts found))"

text \<open>
  \<^verbatim>\<open>search_multiprocessing.py\<close>: the worker puts \<^verbatim>\<open>scan_files(files, keywords)\<close> on the queue;
  \<^verbatim>\<open>main\<close> takes one part per started process and merges it into \<^verbatim>\<open>result\<close>.
\<close>

definition mp_worker :: "world \<Rightarrow> path list \<Rightarrow> string list \<Rightarrow> error + result" where
  "mp_worker w files keywords = scan_files w files keywords"

fun mp_collect :: "(error + result) list \<Rightarrow> result \<Rightarrow> error + result" where
  "mp_collect [] result = Inr result"
| "mp_collect (part # parts) result =
     (case part of
        Inl e \<Rightarrow> Inl e
      | Inr d \<Rightarrow> mp_collect parts (merge result d))"

definition mp_main ::
  "world \<Rightarrow> path \<Rightarrow> string list \<Rightarrow> int \<Rightarrow> string
     \<Rightarrow> (path list list \<Rightarrow> path list list) \<Rightarrow> error + result" where
  "mp_main w dir keywords procs pattern sched =
     (case enumerate_files w dir pattern of
        Inl e \<Rightarrow> Inl (GlobError e)
      | Inr files \<Rightarrow>
          (let n_proc = (if procs \<noteq> 0 then procs else cpu_count w);
               parts = map (\<lambda>chunk. mp_worker w chunk keywords) (sched (chunked files n_proc))
           in mp_collect parts (empty_result keywords)))"

text \<open>
  \<^verbatim>\<open>search_threading.py\<close>: the worker scans its chunk, then merges the part into the shared
  dictionary under the lock; \<^verbatim>\<open>main\<close> joins all threads and prints the shared dictionary.
\<close>

definition thr_worker :: "world \<Rightarrow> path list \<Rightarrow> string list \<Rightarrow> result \<Rightarrow> error + result" where
  "thr_worker w files keywords shared =
     (case scan_files w files keywords of
        Inl e \<Rightarrow> Inl e
      | Inr part \<Rightarrow> merge_into shared part)"

fun thr_run :: "world \<Rightarrow> string list \<Rightarrow> path list list \<Rightarrow> result \<Rightarrow> error + result" where
  "thr_run w keywords [] shared = Inr shared"
| "thr_run w keywords (chunk # chunks) shared =
     (case thr_worker w chunk keywords shared of
        Inl e \<Rightarrow> Inl e
      | Inr shared' \<Rightarrow> thr_run w keywords chunks shared')"

definition thr_main ::
  "world \<Rightarrow> path \<Rightarrow> string list \<Rightarrow> int \<Rightarrow> string
     \<Rightarrow> (path list list \<Rightarrow> path list list) \<Rightarrow> error + result" where
  "thr_main w dir keywords threads pattern sched =
     (case enumerate_files w dir pattern of
        Inl e \<Rightarrow> Inl (GlobError e)
      | Inr files \<Rightarrow>
          (let shared = empty_result keywords
           in thr_run w keywords (sched (chunked files threads)) shared))"

subsection \<open>Notions used to state the properties\<close>

text \<open>The path list a result holds for a keyword (empty when the key is absent).\<close>

definition paths_of :: "result \<Rightarrow> string \<Rightarrow> path list" where
  "paths_of r k = (case map_of r k of None \<Rightarrow> [] | Some l \<Rightarrow> l)"

text \<open>Reading \<open>f\<close> succeeds and its lower-cased content contains the lower-cased keyword.\<close>

definition file_matches :: "world \<Rightarrow> string \<Rightarrow> path \<Rightarrow> bool" where
  "file_matches w k f =
     (case read_text w f of Inl _ \<Rightarrow> False | Inr content \<Rightarrow> sublist (lower w k) (lower w content))"

text \<open>
  The entries that a list of files contributes to keyword \<open>k\<close>: each matching file, in
  file order, once for every occurrence of \<open>k\<close> in the keyword list.
\<close>

definition hits :: "world \<Rightarrow> string list \<Rightarrow> string \<Rightarrow> path list \<Rightarrow> path list" where
  "hits w keywords k files =
     concat (map (\<lambda>p. if file_matches w k p then replicate (count_list keywords k) p else []) files)"

text \<open>The keys of \<^verbatim>\<open>{kw: [] for kw in keywords}\<close>, in the order of the dictionary.\<close>

definition keys_of :: "string list \<Rightarrow> string list" where
  "keys_of keywords = map fst (empty_result keywords)"

text \<open>The dictionary with keys \<open>ks\<close>, in that order, and value \<open>f k\<close> at key \<open>k\<close>.\<close>

definition tab :: "string list \<Rightarrow> (string \<Rightarrow> path list) \<Rightarrow> result" where
  "tab ks f = map (\<lambda>k. (k, f k)) ks"

subsection \<open>A small world for examples\<close>

definition ascii_lower :: "char \<Rightarrow> char" where
  "ascii_lower c =
     (if CHR ''A'' \<le> c \<and> c \<le> CHR ''Z'' then char_of (of_char c + (32 :: nat)) else c)"

text \<open>
  The directory \<^verbatim>\<open>data\<close> holds the three files of the specification's scenario and a
  fourth that cannot be read; \<^verbatim>\<open>empty\<close> is an empty directory; \<^verbatim>\<open>data/a.txt\<close> is a file,
  not a directory; \<^verbatim>\<open>locked/data\<close> lies under a directory that may not be searched, so
  its lookup fails with "permission denied"; every other root is missing.
\<close>

definition demo_read :: "path \<Rightarrow> read_error + string" where
  "demo_read p =
     (if p = ''data/a.txt'' then Inr ''hello Rose garden''
      else if p = ''data/b.txt'' then Inr ''no match here''
      else if p = ''data/c.txt'' then Inr ''ROSE is a flower''
      else if p = ''data/d.txt'' then Inl PermissionError
      else Inl FileNotFoundError)"

definition demo_kind :: "path \<Rightarrow> root_kind" where
  "demo_kind p =
     (if p = ''data'' \<or> p = ''empty'' then Directory
      else if p = ''data/a.txt'' then NotADirectory
      else if p = ''locked/data'' then Unreachable
      else Missing)"

definition demo_pattern_error :: "string \<Rightarrow> glob_error option" where
  "demo_pattern_error pattern =
     (case pattern of
        [] \<Rightarrow> Some ValueError
      | c # _ \<Rightarrow> if c = CHR ''/'' then Some NotImplementedError else None)"

definition demo_matches :: "path \<Rightarrow> string \<Rightarrow> path list" where
  "demo_matches dir pattern =
     (if dir = ''data'' then [''data/c.txt'', ''data/a.txt'', ''data/d.txt'', ''data/b.txt'']
      else [])"

definition demo :: world where
  "demo = \<lparr>lower = map ascii_lower, read_text = demo_read, root_kind = demo_kind,
            pattern_error = demo_pattern_error, matches = demo_matches, cpu_count = 4\<rparr>"

section \<open>Properties of the partitioner\<close>

lemma chunk_size_pos: "0 < chunk_size seq n"
  by (simp add: chunk_size_def Let_def)

lemma range_step_Nil [simp]: "stop \<le> i \<Longrightarrow> range_step i stop k = []"
  by (simp add: range_step.simps)

lemma range_step_Cons:
  "0 < k \<Longrightarrow> i < stop \<Longrightarrow> range_step i stop k = i # range_step (i + k) stop k"
  by (subst range_step.simps) simp

lemma concat_slices:
  "0 < k \<Longrightarrow> concat (map (\<lambda>i. take k (drop i seq)) (range_step i (length seq) k)) = drop i seq"
proof (induction i "length seq" k rule: range_step.induct)
  case (1 i k)
  show ?case
  proof (cases "i < length seq")
    case True
    have "take k (drop i seq) @ drop (i + k) seq = drop i seq"
      using append_take_drop_id [of k "drop i seq"] by (simp add: add.commute)
    with 1 True show ?thesis
      by (simp add: range_step_Cons)
  next
    case False
    then show ?thesis by simp
  qed
qed

lemma concat_chunked: "concat (chunked seq n) = seq"
  using concat_slices [of "chunk_size seq n" seq 0]
  by (simp add: chunked_def Let_def chunk_size_pos)

text \<open>
  C4. For every file list and every worker count, the chunks that \<open>chunked\<close> emits,
  concatenated in the order of emission, are the file list itself: every position of the
  list lies in exactly one chunk, so no file is given to two chunks and none is left out.
  (The statement holds for every integer worker count, in particular for every
  \<open>W \<ge> 1\<close>.)
\<close>

theorem chunked_cover: "concat (chunked files W) = files"
  by (rule concat_chunked)

lemma length_range_step:
  "0 < k \<Longrightarrow> length (range_step i stop k) = (stop - i + k - 1) div k"
proof (induction i stop k rule: range_step.induct)
  case (1 i stop k)
  show ?case
  proof (cases "i < stop")
    case True
    have "(stop - i + k - 1) div k = Suc ((stop - (i + k) + k - 1) div k)"
    proof (cases "i + k \<le> stop")
      case True
      then have "stop - i + k - 1 = (stop - (i + k) + k - 1) + k" using 1(2) by simp
      then show ?thesis by (simp only: div_add_self2 [OF less_imp_neq [OF 1(2), symmetric]])
    next
      case False
      then have "stop - i + k - 1 < 2 * k" "k \<le> stop - i + k - 1" using True by simp_all
      then have "(stop - i + k - 1) div k = 1"
        by (simp add: div_nat_eqI)
      then show ?thesis using False 1(2) by simp
    qed
    with 1 True show ?thesis by (simp add: range_step_Cons)
  next
    case False
    then show ?thesis using 1(2) by simp
  qed
qed

lemma nth_range_step:
  "0 < k \<Longrightarrow> j < length (range_step i stop k) \<Longrightarrow> range_step i stop k ! j = i + j * k"
proof (induction i stop k arbitrary: j rule: range_step.induct)
  case (1 i stop k)
  show ?case
  proof (cases "i < stop")
    case True
    then show ?thesis using 1 by (cases j) (simp_all add: range_step_Cons)
  next
    case False
    then show ?thesis using 1(3) by simp
  qed
qed

lemma chunk_size_ceiling:
  "seq \<noteq> [] \<Longrightarrow> chunk_size seq n = nat \<lceil>real (length seq) / real_of_int (worker_count n)\<rceil>"
proof -
  assume ne: "seq \<noteq> []"
  define len where "len = int (length seq)"
  define m where "m = worker_count n"
  have m: "0 < m" by (simp add: m_def worker_count_def)
  have len: "0 < len" using ne by (simp add: len_def)
  have "\<lceil>real (length seq) / real_of_int m\<rceil> = \<lceil>real_of_int len / real_of_int m\<rceil>"
    by (simp add: len_def)
  also have "\<dots> = - (- len div m)" by (rule ceiling_divide_eq_div)
  also have "\<dots> = len div m + (if len mod m \<noteq> 0 then 1 else 0)"
    using m by (simp add: zdiv_zminus1_eq_if)
  finally have c: "\<lceil>real (length seq) / real_of_int m\<rceil> = len div m + (if len mod m \<noteq> 0 then 1 else 0)" .
  have "1 \<le> len div m + (if len mod m \<noteq> 0 then 1 else 0)"
  proof (cases "len mod m = 0")
    case True
    then have "len = (len div m) * m" by auto
    with len m have "0 < len div m" by (metis mult_zero_left less_le pos_imp_zdiv_nonneg_iff)
    then show ?thesis by simp
  next
    case False
    moreover have "0 \<le> len div m" using len m by (simp add: pos_imp_zdiv_nonneg_iff)
    ultimately show ?thesis by simp
  qed
  then show ?thesis
    unfolding chunk_size_def Let_def m_def [symmetric] len_def [symmetric] c by simp
qed


lemma length_chunked:
  "length (chunked seq n) = (length seq + chunk_size seq n - 1) div chunk_size seq n"
  by (simp add: chunked_def Let_def length_range_step chunk_size_pos)

lemma nth_chunked:
  assumes "j < length (chunked seq n)"
  shows "chunked seq n ! j = take (chunk_size seq n) (drop (j * chunk_size seq n) seq)"
  using assms by (simp add: chunked_def Let_def nth_range_step chunk_size_pos)

lemma chunk_start_in_range:
  assumes "j < length (chunked seq n)"
  shows "j * chunk_size seq n < length seq"
proof -
  define k where "k = chunk_size seq n"
  have k: "0 < k" by (simp add: k_def chunk_size_pos)
  from assms have "j < (length seq + k - 1) div k"
    by (simp add: length_chunked k_def)
  then have "Suc j \<le> (length seq + k - 1) div k" by simp
  then have "Suc j * k \<le> length seq + k - 1"
    using k by (simp add: less_eq_div_iff_mult_less_eq)
  then show ?thesis using k by (simp add: k_def [symmetric])
qed

lemma chunk_size_covers:
  "int (length seq) \<le> int (chunk_size seq n) * worker_count n"
proof -
  define len where "len = int (length seq)"
  define m where "m = worker_count n"
  have m: "0 < m" by (simp add: m_def worker_count_def)
  have len: "0 \<le> len" by (simp add: len_def)
  have d: "0 \<le> len div m" using len m by (simp add: pos_imp_zdiv_nonneg_iff)
  obtain q r where qr: "q = len div m" "r = len mod m" by simp
  have "r < m" using m by (simp add: qr)
  moreover have "len = q * m + r" by (simp add: qr)
  ultimately have "len \<le> (q + (if r \<noteq> 0 then 1 else 0)) * m"
    by (cases "r = 0") (simp_all add: algebra_simps)
  then have "len \<le> (len div m + (if len mod m \<noteq> 0 then 1 else 0)) * m"
    by (simp only: qr)
  also have "\<dots> \<le> max 1 (len div m + (if len mod m \<noteq> 0 then 1 else 0)) * m"
    using m by (intro mult_right_mono) auto
  finally show ?thesis
    using d unfolding chunk_size_def Let_def m_def [symmetric] len_def [symmetric]
    by (simp add: max_def)
qed

lemma length_chunked_le:
  assumes "1 \<le> W"
  shows "int (length (chunked seq W)) \<le> W"
proof -
  define k where "k = chunk_size seq W"
  have k: "0 < k" by (simp add: k_def chunk_size_pos)
  define w where "w = nat W"
  have w: "W = int w" "0 < w" using assms by (simp_all add: w_def)
  have "int (length seq) \<le> int k * W"
    using chunk_size_covers [of seq W] assms by (simp add: k_def worker_count_def)
  then have "length seq \<le> k * w" using w by (metis of_nat_le_iff of_nat_mult)
  then have "length seq + k - 1 < Suc w * k" using k by (simp add: algebra_simps)
  then have "(length seq + k - 1) div k < Suc w"
    using k by (simp add: less_mult_imp_div_less)
  then have "length (chunked seq W) \<le> w"
    by (simp add: length_chunked k_def [symmetric])
  then show ?thesis by (simp add: w(1))
qed

lemma chunked_Nil: "chunked [] W = []"
  by (simp add: chunked_def Let_def)

lemma chunked_nonempty: "chunked seq n \<noteq> [] \<Longrightarrow> seq \<noteq> []"
  by (auto simp: chunked_Nil)

lemma spec_chunk_size_eq:
  "files \<noteq> [] \<Longrightarrow> spec_chunk_size files W = chunk_size files W"
  by (simp add: spec_chunk_size_def chunk_size_ceiling)

lemma length_chunk_full:
  assumes "Suc j < length (chunked seq n)"
  shows "length (chunked seq n ! j) = chunk_size seq n"
proof -
  have "Suc j * chunk_size seq n < length seq"
    using assms by (rule chunk_start_in_range)
  then show ?thesis
    using assms by (simp add: nth_chunked)
qed

lemma length_chunk_last:
  assumes "chunked seq n \<noteq> []"
  shows "0 < length (last (chunked seq n))" "length (last (chunked seq n)) \<le> chunk_size seq n"
proof -
  define j where "j = length (chunked seq n) - 1"
  have j: "j < length (chunked seq n)" using assms by (simp add: j_def)
  have l: "last (chunked seq n) = chunked seq n ! j"
    using assms by (simp add: last_conv_nth j_def)
  show "0 < length (last (chunked seq n))"
    using chunk_start_in_range [OF j] chunk_size_pos [of seq n] by (simp add: l nth_chunked [OF j])
  show "length (last (chunked seq n)) \<le> chunk_size seq n"
    by (simp add: l nth_chunked [OF j])
qed

lemma div_round_up:
  fixes n k :: nat
  assumes "0 < k"
  shows "(n + k - 1) div k = n div k + (if n mod k = 0 then 0 else 1)"
proof -
  define q r where "q = n div k" and "r = n mod k"
  have n: "n = k * q + r" by (simp add: q_def r_def)
  have r: "r < k" using assms by (simp add: r_def)
  show ?thesis
  proof (cases "r = 0")
    case True
    have "k * q \<le> k * q + k - 1" using assms by simp
    moreover have "k * q + k - 1 < k * Suc q" using assms by simp
    ultimately have "(k * q + k - 1) div k = q" by (rule div_nat_eqI)
    then have "(n + k - 1) div k = q" using True by (simp only: n add_0_right)
    then show ?thesis using True by (simp add: q_def [symmetric] r_def [symmetric])
  next
    case False
    have "k * Suc q \<le> k * q + r + k - 1" using False by simp
    moreover have "k * q + r + k - 1 < k * Suc (Suc q)" using r by simp
    ultimately have "(k * q + r + k - 1) div k = Suc q" by (rule div_nat_eqI)
    then have "(n + k - 1) div k = Suc q" by (simp only: n)
    then show ?thesis using False by (simp add: q_def [symmetric] r_def [symmetric])
  qed
qed

lemma ceiling_nat_div:
  fixes n k :: nat
  assumes "0 < k"
  shows "nat \<lceil>real n / real k\<rceil> = (n + k - 1) div k"
proof -
  have "\<lceil>real n / real k\<rceil> = \<lceil>real_of_int (int n) / real_of_int (int k)\<rceil>" by simp
  also have "\<dots> = - (- int n div int k)" by (rule ceiling_divide_eq_div)
  also have "\<dots> = int n div int k + (if int n mod int k = 0 then 0 else 1)"
    using assms by (simp add: zdiv_zminus1_eq_if)
  also have "\<dots> = int (n div k + (if n mod k = 0 then 0 else 1))"
  proof -
    have d: "int n div int k = int (n div k)" by (rule of_nat_div [symmetric])
    have m: "int n mod int k = int (n mod k)" by (rule of_nat_mod [symmetric])
    show ?thesis unfolding d m by simp
  qed
  finally have "nat \<lceil>real n / real k\<rceil> = n div k + (if n mod k = 0 then 0 else 1)"
    by (simp only: nat_int)
  then show ?thesis by (simp only: div_round_up [OF assms])
qed

lemma chunked_eq_spec_chunks: "chunked files W = spec_chunks files W"
proof (cases "files = []")
  case True
  then show ?thesis by (simp add: chunked_Nil spec_chunks_def spec_chunk_count_def)
next
  case False
  then have k: "spec_chunk_size files W = chunk_size files W"
    by (rule spec_chunk_size_eq)
  have c: "spec_chunk_count files W = length (chunked files W)"
    using False
    by (simp add: spec_chunk_count_def k length_chunked ceiling_nat_div [OF chunk_size_pos])
  show ?thesis
  proof (rule nth_equalityI)
    show "length (chunked files W) = length (spec_chunks files W)"
      by (simp add: spec_chunks_def c)
  next
    fix j assume "j < length (chunked files W)"
    then show "chunked files W ! j = spec_chunks files W ! j"
      by (simp add: spec_chunks_def c k nth_chunked)
  qed
qed

text \<open>
  C5. With \<open>k = ceil(len(files) / W)\<close>, where a worker count \<open>W \<le> 0\<close> is first replaced
  by the positive default 1 (and a count \<open>W \<ge> 1\<close> is kept), \<open>chunked\<close> emits exactly the
  consecutive chunks of size \<open>k\<close> that use up the list: the chunks are the slices
  \<open>files[j*k : j*k + k]\<close> for \<open>j = 0, ..., ceil(len(files) / k) - 1\<close>, and their
  concatenation is the list. Every chunk but the last has exactly \<open>k\<close> elements, the last
  has between 1 and \<open>k\<close>. An empty file list gives no chunk at all, a file list that is
  not empty gives at least one, and for \<open>W \<ge> 1\<close> there are at most \<open>W\<close> chunks.
\<close>

theorem chunked_shape:
  "0 < worker_count W \<and> (1 \<le> W \<longrightarrow> worker_count W = W)
   \<and> chunked files W = spec_chunks files W
   \<and> length (chunked files W) = spec_chunk_count files W
   \<and> concat (chunked files W) = files
   \<and> (files \<noteq> [] \<longrightarrow> chunked files W \<noteq> [])
   \<and> (\<forall>j < length (chunked files W).
         chunked files W ! j
           = take (spec_chunk_size files W) (drop (j * spec_chunk_size files W) files))
   \<and> (\<forall>j. Suc j < length (chunked files W)
         \<longrightarrow> length (chunked files W ! j) = spec_chunk_size files W)
   \<and> (chunked files W \<noteq> []
         \<longrightarrow> 0 < length (last (chunked files W))
           \<and> length (last (chunked files W)) \<le> spec_chunk_size files W)
   \<and> chunked ([] :: 'a list) W = []
   \<and> (1 \<le> W \<longrightarrow> int (length (chunked files W)) \<le> W)"
proof -
  have e: "chunked files W = spec_chunks files W"
    by (rule chunked_eq_spec_chunks)
  have n: "length (chunked files W) = spec_chunk_count files W"
    unfolding e by (simp add: spec_chunks_def)
  have c: "concat (chunked files W) = files"
    by (rule concat_chunked)
  have ne: "files \<noteq> [] \<longrightarrow> chunked files W \<noteq> []"
    using c by auto
  have w: "0 < worker_count W \<and> (1 \<le> W \<longrightarrow> worker_count W = W)"
    by (simp add: worker_count_def)
  have nil: "chunked ([] :: 'a list) W = []"
    by (rule chunked_Nil)
  have le: "1 \<le> W \<longrightarrow> int (length (chunked files W)) \<le> W"
    using length_chunked_le [of W files] by (intro impI)
  have rest: "(\<forall>j < length (chunked files W).
         chunked files W ! j
           = take (spec_chunk_size files W) (drop (j * spec_chunk_size files W) files))
   \<and> (\<forall>j. Suc j < length (chunked files W)
         \<longrightarrow> length (chunked files W ! j) = spec_chunk_size files W)
   \<and> (chunked files W \<noteq> []
         \<longrightarrow> 0 < length (last (chunked files W))
           \<and> length (last (chunked files W)) \<le> spec_chunk_size files W)"
  proof (cases "files = []")
    case True
    then show ?thesis by (simp add: chunked_Nil)
  next
    case False
    then have k: "spec_chunk_size files W = chunk_size files W"
      by (rule spec_chunk_size_eq)
    have "\<forall>j < length (chunked files W).
            chunked files W ! j
              = take (chunk_size files W) (drop (j * chunk_size files W) files)"
      by (simp add: nth_chunked)
    moreover have "\<forall>j. Suc j < length (chunked files W)
            \<longrightarrow> length (chunked files W ! j) = chunk_size files W"
      using length_chunk_full [of _ files W] by (intro allI impI)
    moreover have "chunked files W \<noteq> []
            \<longrightarrow> 0 < length (last (chunked files W))
              \<and> length (last (chunked files W)) \<le> chunk_size files W"
      using length_chunk_last [of files W] by (intro impI conjI)
    ultimately show ?thesis unfolding k by (intro conjI)
  qed
  from w e n c ne rest nil le show ?thesis by (intro conjI) (elim conjE, assumption)+
qed

theorem chunked_shape_witness:
  "(1::int) \<le> 2 \<and> worker_count 2 = 2
   \<and> spec_chunk_size ''abcde'' 2 = 3
   \<and> spec_chunk_count ''abcde'' 2 = 2
   \<and> chunked ''abcde'' 2 = [''abc'', ''de'']
   \<and> ''abcde'' \<noteq> []
   \<and> Suc 0 < length (chunked ''abcde'' 2)
   \<and> chunked ''abcde'' 2 ! 0 = take (spec_chunk_size ''abcde'' 2) (drop (0 * spec_chunk_size ''abcde'' 2) ''abcde'')
   \<and> length (chunked ''abcde'' 2 ! 0) = spec_chunk_size ''abcde'' 2
   \<and> chunked ''abcde'' 2 \<noteq> []
   \<and> 0 < length (last (chunked ''abcde'' 2))
   \<and> length (last (chunked ''abcde'' 2)) \<le> spec_chunk_size ''abcde'' 2
   \<and> int (length (chunked ''abcde'' 2)) \<le> 2"
proof -
  have c: "chunked ''abcde'' 2 = [''abc'', ''de'']" by code_simp
  have k: "spec_chunk_size ''abcde'' 2 = 3" by (simp add: spec_chunk_size_def worker_count_def)
  have "length (chunked ''abcde'' 2) = spec_chunk_count ''abcde'' 2"
    using chunked_shape [of 2 "''abcde''"] by (elim conjE)
  then have n: "spec_chunk_count ''abcde'' 2 = 2" by (simp add: c)
  show ?thesis
    using chunked_shape [of 2 "''abcde''"] by (simp add: c k n worker_count_def)
qed

section \<open>Properties of the scanner and of the merge\<close>

text \<open>Every dictionary the program builds has the form \<open>tab ks f\<close> with distinct keys.\<close>

lemma fst_tab [simp]: "map fst (tab ks f) = ks"
  by (simp add: tab_def comp_def)

lemma set_fst_tab [simp]: "fst ` set (tab ks f) = set ks"
  using fst_tab [of ks f] by (metis set_map)

lemma tab_Nil [simp]: "tab [] f = []"
  by (simp add: tab_def)

lemma tab_Cons: "tab (k # ks) f = (k, f k) # tab ks f"
  by (simp add: tab_def)

lemma tab_cong: "(\<And>k. k \<in> set ks \<Longrightarrow> f k = g k) \<Longrightarrow> tab ks f = tab ks g"
  by (simp add: tab_def)

lemma map_of_tab: "map_of (tab ks f) k = (if k \<in> set ks then Some (f k) else None)"
  by (induction ks) (simp_all add: tab_Cons)

lemma update_tab:
  "distinct ks \<Longrightarrow> k \<in> set ks \<Longrightarrow> AList.update k v (tab ks f) = tab ks (f(k := v))"
proof (induction ks)
  case Nil
  then show ?case by simp
next
  case (Cons a ks)
  show ?case
  proof (cases "a = k")
    case True
    with Cons.prems have "k \<notin> set ks" by simp
    then have e: "tab ks (f(k := v)) = tab ks f" by (intro tab_cong) auto
    have "AList.update k v (tab (k # ks) f) = (k, v) # tab ks f"
      by (simp add: tab_Cons)
    also have "\<dots> = (k, (f(k := v)) k) # tab ks (f(k := v))"
      by (simp only: e fun_upd_same)
    also have "\<dots> = tab (k # ks) (f(k := v))"
      by (simp only: tab_Cons)
    finally show ?thesis unfolding True .
  next
    case False
    with Cons show ?thesis by (simp add: tab_Cons)
  qed
qed

lemma update_tab_new:
  "k \<notin> set ks \<Longrightarrow> AList.update k v (tab ks f) = tab (ks @ [k]) (f(k := v))"
proof (induction ks)
  case Nil
  then show ?case by (simp add: tab_Cons)
next
  case (Cons a ks)
  then show ?case by (auto simp add: tab_Cons)
qed

lemma fold_empty_tab:
  "distinct ks \<Longrightarrow>
   \<exists>ks'. fold (\<lambda>kw d. AList.update kw [] d) kwl (tab ks (\<lambda>_. [])) = tab ks' (\<lambda>_. [])
        \<and> distinct ks' \<and> set ks' = set ks \<union> set kwl"
proof (induction kwl arbitrary: ks)
  case Nil
  then show ?case by auto
next
  case (Cons kw kwl)
  show ?case
  proof (cases "kw \<in> set ks")
    case True
    have "AList.update kw [] (tab ks (\<lambda>_. [])) = tab ks (\<lambda>_. [])"
      using True by (intro update_triv) (simp add: map_of_tab)
    with Cons.IH [OF Cons.prems] True show ?thesis by auto
  next
    case False
    have "AList.update kw [] (tab ks (\<lambda>_. [])) = tab (ks @ [kw]) (\<lambda>_. [])"
      using False by (simp add: update_tab_new) (simp add: tab_def)
    moreover have "distinct (ks @ [kw])" using False Cons.prems by simp
    ultimately show ?thesis using Cons.IH [of "ks @ [kw]"] by auto
  qed
qed

lemma empty_result_keys:
  "empty_result kwl = tab (keys_of kwl) (\<lambda>_. []) \<and> distinct (keys_of kwl)
     \<and> set (keys_of kwl) = set kwl"
proof -
  obtain ks' where k: "fold (\<lambda>kw d. AList.update kw [] d) kwl [] = tab ks' (\<lambda>_. [])"
      "distinct ks'" "set ks' = set kwl"
    using fold_empty_tab [of "[]" kwl] by auto
  then have "keys_of kwl = ks'" by (simp add: keys_of_def empty_result_def)
  with k show ?thesis by (simp add: empty_result_def)
qed

lemma empty_result_tab: "empty_result kwl = tab (keys_of kwl) (\<lambda>_. [])"
  using empty_result_keys by blast

lemma distinct_keys_of [simp]: "distinct (keys_of kwl)"
  using empty_result_keys by blast

lemma set_keys_of [simp]: "set (keys_of kwl) = set kwl"
  using empty_result_keys by blast


lemma scan_keywords_tab:
  "distinct ks \<Longrightarrow> fst ` set kws \<subseteq> set ks \<Longrightarrow>
   scan_keywords text p kws (tab ks f)
     = Inr (tab ks (\<lambda>k. f k @ replicate (length (filter (\<lambda>(kw, lkw). kw = k \<and> sublist lkw text) kws)) p))"
proof (induction kws arbitrary: f)
  case Nil
  then show ?case by simp
next
  case (Cons a kws)
  obtain kw lkw where a: "a = (kw, lkw)" by (cases a)
  from Cons.prems a have kw: "kw \<in> set ks" and sub: "fst ` set kws \<subseteq> set ks" by auto
  show ?case
  proof (cases "sublist lkw text")
    case True
    have "scan_keywords text p (a # kws) (tab ks f)
            = scan_keywords text p kws (tab ks (f(kw := f kw @ [p])))"
      using True kw Cons.prems(1) by (simp add: a map_of_tab update_tab)
    also have "\<dots> = Inr (tab ks (\<lambda>k. (f(kw := f kw @ [p])) k
                 @ replicate (length (filter (\<lambda>(kw, lkw). kw = k \<and> sublist lkw text) kws)) p))"
      by (rule Cons.IH [OF Cons.prems(1) sub])
    also have "\<dots> = Inr (tab ks (\<lambda>k. f k
                 @ replicate (length (filter (\<lambda>(kw, lkw). kw = k \<and> sublist lkw text) (a # kws))) p))"
      using True by (auto simp: a intro!: tab_cong simp: replicate_app_Cons_same)
    finally show ?thesis .
  next
    case False
    then show ?thesis
      using Cons.IH [OF Cons.prems(1) sub, of f] by (simp add: a)
  qed
qed

lemma count_zip_lower:
  "length (filter (\<lambda>(kw, lkw). kw = k \<and> sublist lkw text) (zip kwl (map lw kwl)))
     = (if sublist (lw k) text then count_list kwl k else 0)"
  by (induction kwl) auto

lemma scan_loop_tab:
  "distinct ks \<Longrightarrow> set kwl \<subseteq> set ks \<Longrightarrow>
   scan_loop w files (zip kwl (map (lower w) kwl)) (tab ks f)
     = Inr (tab ks (\<lambda>k. f k @ hits w kwl k files))"
proof (induction files arbitrary: f)
  case Nil
  then show ?case by (simp add: hits_def)
next
  case (Cons p files)
  have sub: "fst ` set (zip kwl (map (lower w) kwl)) \<subseteq> set ks"
    using Cons.prems(2) by (auto dest: set_zip_leftD)
  show ?case
  proof (cases "read_text w p")
    case (Inl e)
    then have "hits w kwl k (p # files) = hits w kwl k files" for k
      by (simp add: hits_def file_matches_def)
    with Inl Cons show ?thesis by simp
  next
    case (Inr content)
    have h: "hits w kwl k (p # files)
            = replicate (if sublist (lower w k) (lower w content) then count_list kwl k else 0) p
              @ hits w kwl k files" for k
      by (simp add: hits_def file_matches_def Inr)
    show ?thesis
      using Inr Cons.prems Cons.IH [OF Cons.prems]
      by (simp add: scan_keywords_tab [OF Cons.prems(1) sub] count_zip_lower h)
  qed
qed

lemma scan_files_tab:
  "scan_files w files kwl = Inr (tab (keys_of kwl) (\<lambda>k. hits w kwl k files))"
  by (simp add: scan_files_def Let_def empty_result_tab scan_loop_tab)


lemma merge_tab:
  "distinct ks \<Longrightarrow> distinct ks' \<Longrightarrow> set ks' \<subseteq> set ks \<Longrightarrow>
   merge (tab ks f) (tab ks' g) = tab ks (\<lambda>k. if k \<in> set ks' then f k @ g k else f k)"
proof (induction ks' arbitrary: f)
  case Nil
  then show ?case by simp
next
  case (Cons a ks')
  from Cons.prems have a: "a \<in> set ks" "a \<notin> set ks'" and rest: "distinct ks'" "set ks' \<subseteq> set ks"
    by auto
  have "merge (tab ks f) (tab (a # ks') g) = merge (tab ks (f(a := f a @ g a))) (tab ks' g)"
    using a Cons.prems(1) by (simp add: tab_Cons map_of_tab update_tab)
  also have "\<dots> = tab ks (\<lambda>k. if k \<in> set ks' then (f(a := f a @ g a)) k @ g k
                                 else (f(a := f a @ g a)) k)"
    by (rule Cons.IH [OF Cons.prems(1) rest])
  also have "\<dots> = tab ks (\<lambda>k. if k \<in> set (a # ks') then f k @ g k else f k)"
    using a by (intro tab_cong) auto
  finally show ?case .
qed

lemma merge_into_tab:
  "distinct ks \<Longrightarrow> distinct ks' \<Longrightarrow> set ks' \<subseteq> set ks \<Longrightarrow>
   merge_into (tab ks f) (tab ks' g)
     = Inr (tab ks (\<lambda>k. if k \<in> set ks' then f k @ g k else f k))"
proof (induction ks' arbitrary: f)
  case Nil
  then show ?case by simp
next
  case (Cons a ks')
  from Cons.prems have a: "a \<in> set ks" "a \<notin> set ks'" and rest: "distinct ks'" "set ks' \<subseteq> set ks"
    by auto
  have "merge_into (tab ks f) (tab (a # ks') g)
          = merge_into (tab ks (f(a := f a @ g a))) (tab ks' g)"
    using a Cons.prems(1) by (simp add: tab_Cons map_of_tab update_tab)
  also have "\<dots> = Inr (tab ks (\<lambda>k. if k \<in> set ks' then (f(a := f a @ g a)) k @ g k
                                 else (f(a := f a @ g a)) k))"
    by (rule Cons.IH [OF Cons.prems(1) rest])
  also have "\<dots> = Inr (tab ks (\<lambda>k. if k \<in> set (a # ks') then f k @ g k else f k))"
    using a by (auto intro!: tab_cong)
  finally show ?case .
qed

lemma merge_same_keys:
  "distinct ks \<Longrightarrow> merge (tab ks f) (tab ks g) = tab ks (\<lambda>k. f k @ g k)"
  by (simp add: merge_tab cong: tab_cong)

lemma merge_into_same_keys:
  "distinct ks \<Longrightarrow> merge_into (tab ks f) (tab ks g) = Inr (tab ks (\<lambda>k. f k @ g k))"
  by (simp add: merge_into_tab cong: tab_cong)

lemma hits_append: "hits w kwl k (xs @ ys) = hits w kwl k xs @ hits w kwl k ys"
  by (simp add: hits_def)

lemma mp_collect_tab:
  "mp_collect (map (\<lambda>chunk. mp_worker w chunk kwl) order) (tab (keys_of kwl) f)
     = Inr (tab (keys_of kwl) (\<lambda>k. f k @ hits w kwl k (concat order)))"
proof (induction order arbitrary: f)
  case Nil
  then show ?case by (simp add: hits_def)
next
  case (Cons c order)
  have "mp_collect (map (\<lambda>chunk. mp_worker w chunk kwl) (c # order)) (tab (keys_of kwl) f)
          = mp_collect (map (\<lambda>chunk. mp_worker w chunk kwl) order)
              (tab (keys_of kwl) (\<lambda>k. f k @ hits w kwl k c))"
    by (simp add: mp_worker_def [of w c] scan_files_tab merge_same_keys)
  also have "\<dots> = Inr (tab (keys_of kwl) (\<lambda>k. (f k @ hits w kwl k c) @ hits w kwl k (concat order)))"
    by (rule Cons.IH)
  finally show ?case by (simp add: hits_append)
qed

lemma thr_run_tab:
  "thr_run w kwl order (tab (keys_of kwl) f)
     = Inr (tab (keys_of kwl) (\<lambda>k. f k @ hits w kwl k (concat order)))"
proof (induction order arbitrary: f)
  case Nil
  then show ?case by (simp add: hits_def)
next
  case (Cons c order)
  have "thr_run w kwl (c # order) (tab (keys_of kwl) f)
          = thr_run w kwl order (tab (keys_of kwl) (\<lambda>k. f k @ hits w kwl k c))"
    by (simp add: thr_worker_def scan_files_tab merge_into_same_keys)
  also have "\<dots> = Inr (tab (keys_of kwl) (\<lambda>k. (f k @ hits w kwl k c) @ hits w kwl k (concat order)))"
    by (rule Cons.IH)
  finally show ?case by (simp add: hits_append)
qed

lemma mp_main_tab:
  "enumerate_files w dir pattern = Inr files \<Longrightarrow>
   mp_main w dir kwl procs pattern sched
     = Inr (tab (keys_of kwl) (\<lambda>k. hits w kwl k
          (concat (sched (chunked files (if procs \<noteq> 0 then procs else cpu_count w))))))"
  by (simp add: mp_main_def Let_def empty_result_tab mp_collect_tab)

lemma thr_main_tab:
  "enumerate_files w dir pattern = Inr files \<Longrightarrow>
   thr_main w dir kwl threads pattern sched
     = Inr (tab (keys_of kwl) (\<lambda>k. hits w kwl k (concat (sched (chunked files threads)))))"
  by (simp add: thr_main_def Let_def empty_result_tab thr_run_tab)

lemma mp_main_error:
  "enumerate_files w dir pattern = Inl e \<Longrightarrow>
   mp_main w dir kwl procs pattern sched = Inl (GlobError e)"
  by (simp add: mp_main_def)

lemma thr_main_error:
  "enumerate_files w dir pattern = Inl e \<Longrightarrow>
   thr_main w dir kwl threads pattern sched = Inl (GlobError e)"
  by (simp add: thr_main_def)

lemma paths_of_tab: "paths_of (tab ks f) k = (if k \<in> set ks then f k else [])"
  by (simp add: paths_of_def map_of_tab)

lemma set_hits:
  "set (hits w kwl k files)
     = (if k \<in> set kwl then {f \<in> set files. file_matches w k f} else {})"
proof (cases "k \<in> set kwl")
  case True
  then have "0 < count_list kwl k" using count_list_0_iff [of kwl k] by simp
  then show ?thesis using True by (auto simp: hits_def)
next
  case False
  then have "count_list kwl k = 0" by (simp add: count_list_0_iff)
  then show ?thesis using False by (simp add: hits_def)
qed

lemma count_list_replicate:
  "count_list (replicate n x) y = (if x = y then n else 0)"
  by (induction n) auto

lemma count_list_hits:
  "count_list (hits w kwl k files) f
     = (if file_matches w k f then count_list kwl k * count_list files f else 0)"
  by (induction files) (auto simp: hits_def count_list_replicate)

lemma mset_concat_cong:
  "mset xss = mset yss \<Longrightarrow> mset (concat xss) = mset (concat yss)"
proof -
  have "mset (concat zss) = sum_mset (image_mset mset (mset zss))" for zss :: "'a list list"
    by (induction zss) auto
  then show "mset xss = mset yss \<Longrightarrow> mset (concat xss) = mset (concat yss)"
    by simp
qed

lemma mset_hits_cong:
  "mset xs = mset ys \<Longrightarrow> mset (hits w kwl k xs) = mset (hits w kwl k ys)"
  unfolding hits_def
  by (intro mset_concat_cong) (metis mset_map)

lemma mset_hits_sched:
  assumes "mset order = mset (chunked files W)"
  shows "mset (hits w kwl k (concat order)) = mset (hits w kwl k files)"
proof -
  have "mset (concat order) = mset (concat (chunked files W))"
    using assms by (rule mset_concat_cong)
  then have "mset (concat order) = mset files"
    by (simp add: concat_chunked)
  then show ?thesis by (rule mset_hits_cong)
qed


lemma file_matches_iff:
  "file_matches w k f
     \<longleftrightarrow> (\<exists>content. read_text w f = Inr content \<and> sublist (lower w k) (lower w content))"
  by (simp add: file_matches_def split: sum.split)

lemma permutesD: "permutes sched \<Longrightarrow> mset (sched chunks) = mset chunks"
  by (simp add: permutes_def)

lemma set_hits_sched:
  assumes "mset order = mset (chunked files W)"
  shows "set (hits w kwl k (concat order)) = set (hits w kwl k files)"
  using mset_hits_sched [OF assms] by (rule mset_eq_setD)

lemma member_paths_tab:
  assumes "k \<in> set kwl" and "set (hits w kwl k fs') = set (hits w kwl k fs)"
  shows "k \<in> fst ` set (tab (keys_of kwl) (\<lambda>k. hits w kwl k fs'))
       \<and> (\<forall>f. f \<in> set (paths_of (tab (keys_of kwl) (\<lambda>k. hits w kwl k fs')) k)
              \<longleftrightarrow> f \<in> set fs
                  \<and> (\<exists>content. read_text w f = Inr content
                        \<and> sublist (lower w k) (lower w content)))"
proof -
  have "paths_of (tab (keys_of kwl) (\<lambda>k. hits w kwl k fs')) k = hits w kwl k fs'"
    using assms(1) by (simp add: paths_of_tab)
  then have "set (paths_of (tab (keys_of kwl) (\<lambda>k. hits w kwl k fs')) k)
               = {f \<in> set fs. file_matches w k f}"
    using assms by (simp add: set_hits)
  then show ?thesis
    using assms(1) by (simp add: file_matches_iff)
qed

section \<open>The example world\<close>

lemma demo_files:
  "enumerate_files demo ''data'' ''**/*.txt''
     = Inr [''data/a.txt'', ''data/b.txt'', ''data/c.txt'', ''data/d.txt'']"
  by code_simp

lemma path_order_example:
  "sort_key path_parts [''srt/a.txt'', ''srt/b.txt'', ''srt/a/x.txt'']
     = [''srt/a/x.txt'', ''srt/a.txt'', ''srt/b.txt'']"
  by code_simp

lemma demo_mp: "mp_main demo ''data'' [''rose''] 0 ''**/*.txt'' rev
     = Inr [(''rose'', [''data/c.txt'', ''data/a.txt''])]"
  by code_simp

lemma demo_thr: "thr_main demo ''data'' [''rose''] 3 ''**/*.txt'' rev
     = Inr [(''rose'', [''data/c.txt'', ''data/a.txt''])]"
  by code_simp

lemma demo_scan: "scan_files demo [''data/a.txt'', ''data/b.txt'', ''data/c.txt'', ''data/d.txt''] [''rose'']
     = Inr [(''rose'', [''data/a.txt'', ''data/c.txt''])]"
  by code_simp

lemma permutes_rev: "permutes rev"
  by (simp add: permutes_def)



lemma demo_read_a: "read_text demo ''data/a.txt'' = Inr ''hello Rose garden''"
  by (simp add: demo_def demo_read_def)

lemma demo_read_d: "read_text demo ''data/d.txt'' = Inl PermissionError"
  by (simp add: demo_def demo_read_def)

lemma demo_rose_a: "sublist (lower demo ''rose'') (lower demo ''hello Rose garden'')"
  by code_simp

section \<open>The claims about scanning and merging\<close>

text \<open>
  C1. For every file list, keyword list, file path \<open>f\<close> and requested keyword \<open>k\<close>:
  \<open>scan_files\<close> returns a dictionary in which \<open>k\<close> is a key, and \<open>f\<close> is in the list for
  \<open>k\<close> if and only if \<open>f\<close> is one of the scanned files, reading \<open>f\<close> succeeded, and the
  lower-cased content of \<open>f\<close> contains the lower-cased \<open>k\<close> as a substring. The same holds
  for the merged result of both drivers over the file list that the enumeration gives,
  whatever the order in which the workers deliver.
\<close>

theorem scan_files_membership:
  assumes "k \<in> set keywords" and "permutes sched"
  shows "(\<exists>out. scan_files w files keywords = Inr out \<and> k \<in> fst ` set out
            \<and> (\<forall>f. f \<in> set (paths_of out k)
                  \<longleftrightarrow> f \<in> set files
                      \<and> (\<exists>content. read_text w f = Inr content
                            \<and> sublist (lower w k) (lower w content))))
       \<and> (enumerate_files w dir pattern = Inr enumerated \<longrightarrow>
           (\<exists>res. mp_main w dir keywords procs pattern sched = Inr res \<and> k \<in> fst ` set res
              \<and> (\<forall>f. f \<in> set (paths_of res k)
                    \<longleftrightarrow> f \<in> set enumerated
                        \<and> (\<exists>content. read_text w f = Inr content
                              \<and> sublist (lower w k) (lower w content))))
         \<and> (\<exists>res. thr_main w dir keywords threads pattern sched = Inr res \<and> k \<in> fst ` set res
              \<and> (\<forall>f. f \<in> set (paths_of res k)
                    \<longleftrightarrow> f \<in> set enumerated
                        \<and> (\<exists>content. read_text w f = Inr content
                              \<and> sublist (lower w k) (lower w content)))))"
proof -
  have sch: "set (hits w keywords k (concat (sched (chunked fs n)))) = set (hits w keywords k fs)"
    for fs n
    by (rule set_hits_sched) (rule permutesD [OF assms(2)])
  have "\<exists>out. scan_files w files keywords = Inr out \<and> k \<in> fst ` set out
            \<and> (\<forall>f. f \<in> set (paths_of out k)
                  \<longleftrightarrow> f \<in> set files
                      \<and> (\<exists>content. read_text w f = Inr content
                            \<and> sublist (lower w k) (lower w content)))"
    using member_paths_tab [where w = w and fs = files and fs' = files, OF assms(1) refl]
    by (simp add: scan_files_tab)
  moreover have "\<exists>res. mp_main w dir keywords procs pattern sched = Inr res \<and> k \<in> fst ` set res
            \<and> (\<forall>f. f \<in> set (paths_of res k)
                  \<longleftrightarrow> f \<in> set enumerated
                      \<and> (\<exists>content. read_text w f = Inr content
                            \<and> sublist (lower w k) (lower w content)))"
    if "enumerate_files w dir pattern = Inr enumerated"
    using member_paths_tab [where w = w and fs = enumerated, OF assms(1) sch]
    by (simp only: mp_main_tab [OF that] sum.inject simp_thms ex_simps)
  moreover have "\<exists>res. thr_main w dir keywords threads pattern sched = Inr res \<and> k \<in> fst ` set res
            \<and> (\<forall>f. f \<in> set (paths_of res k)
                  \<longleftrightarrow> f \<in> set enumerated
                      \<and> (\<exists>content. read_text w f = Inr content
                            \<and> sublist (lower w k) (lower w content)))"
    if "enumerate_files w dir pattern = Inr enumerated"
    using member_paths_tab [where w = w and fs = enumerated, OF assms(1) sch]
    by (simp only: thr_main_tab [OF that] sum.inject simp_thms ex_simps)
  ultimately show ?thesis by (intro conjI impI)
qed

theorem scan_files_membership_witness:
  "''rose'' \<in> set [''rose''] \<and> permutes rev
   \<and> enumerate_files demo ''data'' ''**/*.txt''
       = Inr [''data/a.txt'', ''data/b.txt'', ''data/c.txt'', ''data/d.txt'']
   \<and> (\<exists>out. scan_files demo [''data/a.txt'', ''data/b.txt'', ''data/c.txt'', ''data/d.txt'']
                  [''rose''] = Inr out
          \<and> ''data/a.txt'' \<in> set (paths_of out ''rose'')
          \<and> ''data/b.txt'' \<notin> set (paths_of out ''rose''))
   \<and> (\<exists>res. mp_main demo ''data'' [''rose''] 0 ''**/*.txt'' rev = Inr res
          \<and> ''data/a.txt'' \<in> set (paths_of res ''rose''))"
proof -
  let ?F = "[''data/a.txt'', ''data/b.txt'', ''data/c.txt'', ''data/d.txt'']"
  have h1: "''rose'' \<in> set [''rose'']" by simp
  have h2: "permutes rev" by (rule permutes_rev)
  have scan: "\<exists>out. scan_files demo ?F [''rose''] = Inr out \<and> ''rose'' \<in> fst ` set out
            \<and> (\<forall>f. f \<in> set (paths_of out ''rose'')
                  \<longleftrightarrow> f \<in> set ?F
                      \<and> (\<exists>content. read_text demo f = Inr content
                            \<and> sublist (lower demo ''rose'') (lower demo content)))"
    using scan_files_membership [OF h1 h2, of demo ?F "''data''" "''**/*.txt''" ?F 0 3]
    by (rule conjunct1)
  then obtain out where out: "scan_files demo ?F [''rose''] = Inr out \<and> ''rose'' \<in> fst ` set out
            \<and> (\<forall>f. f \<in> set (paths_of out ''rose'')
                  \<longleftrightarrow> f \<in> set ?F
                      \<and> (\<exists>content. read_text demo f = Inr content
                            \<and> sublist (lower demo ''rose'') (lower demo content)))"
    by (rule exE)
  then have o: "scan_files demo ?F [''rose''] = Inr out"
    and m: "\<forall>f. f \<in> set (paths_of out ''rose'')
              \<longleftrightarrow> f \<in> set ?F \<and> (\<exists>content. read_text demo f = Inr content
                      \<and> sublist (lower demo ''rose'') (lower demo content))"
    by simp_all
  have "enumerate_files demo ''data'' ''**/*.txt'' = Inr ?F \<longrightarrow>
          (\<exists>res. mp_main demo ''data'' [''rose''] 0 ''**/*.txt'' rev = Inr res
              \<and> ''rose'' \<in> fst ` set res
              \<and> (\<forall>f. f \<in> set (paths_of res ''rose'')
                    \<longleftrightarrow> f \<in> set ?F
                        \<and> (\<exists>content. read_text demo f = Inr content
                              \<and> sublist (lower demo ''rose'') (lower demo content))))
        \<and> (\<exists>res. thr_main demo ''data'' [''rose''] 3 ''**/*.txt'' rev = Inr res
              \<and> ''rose'' \<in> fst ` set res
              \<and> (\<forall>f. f \<in> set (paths_of res ''rose'')
                    \<longleftrightarrow> f \<in> set ?F
                        \<and> (\<exists>content. read_text demo f = Inr content
                              \<and> sublist (lower demo ''rose'') (lower demo content))))"
    using scan_files_membership [OF h1 h2, of demo ?F "''data''" "''**/*.txt''" ?F 0 3]
    by (rule conjunct2)
  then have "(\<exists>res. mp_main demo ''data'' [''rose''] 0 ''**/*.txt'' rev = Inr res
              \<and> ''rose'' \<in> fst ` set res
              \<and> (\<forall>f. f \<in> set (paths_of res ''rose'')
                    \<longleftrightarrow> f \<in> set ?F
                        \<and> (\<exists>content. read_text demo f = Inr content
                              \<and> sublist (lower demo ''rose'') (lower demo content))))
        \<and> (\<exists>res. thr_main demo ''data'' [''rose''] 3 ''**/*.txt'' rev = Inr res
              \<and> ''rose'' \<in> fst ` set res
              \<and> (\<forall>f. f \<in> set (paths_of res ''rose'')
                    \<longleftrightarrow> f \<in> set ?F
                        \<and> (\<exists>content. read_text demo f = Inr content
                              \<and> sublist (lower demo ''rose'') (lower demo content))))"
    using demo_files by (rule mp)
  then have "\<exists>res. mp_main demo ''data'' [''rose''] 0 ''**/*.txt'' rev = Inr res
              \<and> ''rose'' \<in> fst ` set res
              \<and> (\<forall>f. f \<in> set (paths_of res ''rose'')
                    \<longleftrightarrow> f \<in> set ?F
                        \<and> (\<exists>content. read_text demo f = Inr content
                              \<and> sublist (lower demo ''rose'') (lower demo content)))"
    by (rule conjunct1)
  then obtain res where res: "mp_main demo ''data'' [''rose''] 0 ''**/*.txt'' rev = Inr res
              \<and> ''rose'' \<in> fst ` set res
              \<and> (\<forall>f. f \<in> set (paths_of res ''rose'')
                    \<longleftrightarrow> f \<in> set ?F
                        \<and> (\<exists>content. read_text demo f = Inr content
                              \<and> sublist (lower demo ''rose'') (lower demo content)))"
    by (rule exE)
  then have r: "mp_main demo ''data'' [''rose''] 0 ''**/*.txt'' rev = Inr res"
    and n: "\<forall>f. f \<in> set (paths_of res ''rose'')
              \<longleftrightarrow> f \<in> set ?F \<and> (\<exists>content. read_text demo f = Inr content
                      \<and> sublist (lower demo ''rose'') (lower demo content))"
    by simp_all
  have a: "''data/a.txt'' \<in> set (paths_of out ''rose'')"
    using m demo_read_a demo_rose_a by simp
  have "out = [(''rose'', [''data/a.txt'', ''data/c.txt''])]"
    using o by (simp add: demo_scan)
  then have b: "''data/b.txt'' \<notin> set (paths_of out ''rose'')"
    by (simp add: paths_of_def)
  have c: "''data/a.txt'' \<in> set (paths_of res ''rose'')"
    using n demo_read_a demo_rose_a by simp
  have "\<exists>out. scan_files demo ?F [''rose''] = Inr out
          \<and> ''data/a.txt'' \<in> set (paths_of out ''rose'')
          \<and> ''data/b.txt'' \<notin> set (paths_of out ''rose'')"
    using o a b by (intro exI conjI)
  moreover have "\<exists>res. mp_main demo ''data'' [''rose''] 0 ''**/*.txt'' rev = Inr res
          \<and> ''data/a.txt'' \<in> set (paths_of res ''rose'')"
    using r c by (intro exI conjI)
  ultimately show ?thesis using h1 h2 demo_files by (intro conjI)
qed

lemma hits_unreadable:
  "read_text w p = Inl e \<Longrightarrow> hits w kwl k (xs @ p # ys) = hits w kwl k (xs @ ys)"
  by (simp add: hits_def file_matches_def)

text \<open>
  C7. If reading a file of the chunk fails, for whatever reason, \<open>scan_files\<close> returns
  exactly what it returns for the chunk without that file: the file is skipped, the files
  before and after it are processed as they would have been, and no error reaches the
  caller.
\<close>

theorem scan_files_skips_unreadable:
  assumes "read_text w p = Inl e"
  shows "scan_files w (before @ p # after) keywords = scan_files w (before @ after) keywords
       \<and> (\<exists>out. scan_files w (before @ p # after) keywords = Inr out)"
  using assms by (simp add: scan_files_tab hits_unreadable)

theorem scan_files_skips_unreadable_witness:
  "read_text demo ''data/d.txt'' = Inl PermissionError
   \<and> scan_files demo ([''data/a.txt''] @ ''data/d.txt'' # [''data/c.txt'']) [''rose'']
       = scan_files demo ([''data/a.txt''] @ [''data/c.txt'']) [''rose'']
   \<and> scan_files demo ([''data/a.txt''] @ [''data/c.txt'']) [''rose'']
       = Inr [(''rose'', [''data/a.txt'', ''data/c.txt''])]"
proof -
  have "scan_files demo ([''data/a.txt''] @ [''data/c.txt'']) [''rose'']
       = Inr [(''rose'', [''data/a.txt'', ''data/c.txt''])]"
    by code_simp
  with demo_read_d scan_files_skips_unreadable [OF demo_read_d, of "[''data/a.txt'']" "[''data/c.txt'']" "[''rose'']"]
  show ?thesis by blast
qed

lemma no_entry_tab:
  "k \<notin> set ks \<Longrightarrow> filter (\<lambda>entry. fst entry = k) (tab ks f) = []"
  by (induction ks) (auto simp: tab_Cons)

lemma single_entry_tab:
  "distinct ks \<Longrightarrow> k \<in> set ks \<Longrightarrow> length (filter (\<lambda>entry. fst entry = k) (tab ks f)) = 1"
  by (induction ks) (auto simp: tab_Cons no_entry_tab)

text \<open>
  C9. A keyword list may name a keyword several times. \<open>scan_files\<close> does not fail, the
  result has a single entry for the keyword, and each file appears in that entry's list
  once per occurrence of the keyword in the keyword list (times the number of times the
  file itself is listed) when it matches, and not at all when it does not. With the
  keyword given twice, a matching file is therefore listed twice.
\<close>

theorem scan_files_duplicate_keyword:
  assumes "k \<in> set keywords"
  shows "\<exists>out. scan_files w files keywords = Inr out
       \<and> length (filter (\<lambda>entry. fst entry = k) out) = 1
       \<and> (\<forall>f. count_list (paths_of out k) f
               = (if file_matches w k f then count_list keywords k * count_list files f else 0))"
  using assms by (simp add: scan_files_tab single_entry_tab paths_of_tab count_list_hits)

lemma demo_scan_twice:
  "scan_files demo [''data/a.txt'', ''data/b.txt'', ''data/c.txt'', ''data/d.txt''] [''rose'', ''rose'']
     = Inr [(''rose'', [''data/a.txt'', ''data/a.txt'', ''data/c.txt'', ''data/c.txt''])]"
  by code_simp

theorem scan_files_duplicate_keyword_witness:
  "''rose'' \<in> set [''rose'', ''rose''] \<and> count_list [''rose'', ''rose''] ''rose'' = 2
   \<and> file_matches demo ''rose'' ''data/a.txt''
   \<and> (\<exists>out. scan_files demo [''data/a.txt'', ''data/b.txt'', ''data/c.txt'', ''data/d.txt'']
                 [''rose'', ''rose''] = Inr out
         \<and> length (filter (\<lambda>entry. fst entry = ''rose'') out) = 1
         \<and> count_list (paths_of out ''rose'') ''data/a.txt'' = 2)"
proof -
  let ?F = "[''data/a.txt'', ''data/b.txt'', ''data/c.txt'', ''data/d.txt'']"
  have h: "''rose'' \<in> set [''rose'', ''rose'']" by simp
  have c: "count_list [''rose'', ''rose''] ''rose'' = 2" by simp
  have m: "file_matches demo ''rose'' ''data/a.txt''"
    using demo_read_a demo_rose_a by (simp add: file_matches_def)
  have n: "count_list ?F ''data/a.txt'' = 1" by simp
  from scan_files_duplicate_keyword [OF h, of demo ?F]
  obtain out where o: "scan_files demo ?F [''rose'', ''rose''] = Inr out"
    and l: "length (filter (\<lambda>entry. fst entry = ''rose'') out) = 1"
    and a: "\<forall>f. count_list (paths_of out ''rose'') f
               = (if file_matches demo ''rose'' f
                  then count_list [''rose'', ''rose''] ''rose'' * count_list ?F f else 0)"
    by blast
  from a have "count_list (paths_of out ''rose'') ''data/a.txt''
               = (if file_matches demo ''rose'' ''data/a.txt''
                  then count_list [''rose'', ''rose''] ''rose'' * count_list ?F ''data/a.txt'' else 0)"
    by (rule spec)
  then have "count_list (paths_of out ''rose'') ''data/a.txt'' = 2"
    by (simp only: m c n if_True)
  with h c m o l show ?thesis by blast
qed

lemma merge_into_keys:
  "fst ` set src \<subseteq> fst ` set dst \<Longrightarrow>
   \<exists>dst'. merge_into dst src = Inr dst' \<and> fst ` set dst' = fst ` set dst"
proof (induction src arbitrary: dst)
  case Nil
  then show ?case by simp
next
  case (Cons a src)
  obtain k v where a: "a = (k, v)" by (cases a)
  from Cons.prems a have k: "k \<in> fst ` set dst" and sub: "fst ` set src \<subseteq> fst ` set dst"
    by auto
  from k obtain l where l: "map_of dst k = Some l"
    by (metis map_of_eq_None_iff not_Some_eq)
  have keys: "fst ` set (AList.update k (l @ v) dst) = fst ` set dst"
    using k by (auto simp: dom_update)
  from Cons.IH [of "AList.update k (l @ v) dst"] sub keys
  show ?case by (simp add: a l)
qed

lemma merge_into_missing_key: "merge_into [] [(''x'', [])] = Inl (KeyError ''x'')"
  by simp

text \<open>
  C10. \<open>merge_into\<close> indexes \<open>dst[k]\<close> without a guard, and on a destination that lacks
  a key of the source it does raise \<open>KeyError\<close> (lemma \<open>merge_into_missing_key\<close>). In the
  program that branch is never taken: for every chunk \<open>scan_files\<close> returns a part whose
  key set is the set of requested keywords, the shared dictionary starts with that key
  set, and merging such a part into any dictionary with that key set succeeds and keeps
  the key set. Hence every run of the workers, in any order and over any chunks, ends
  without an error; the threading driver never ends with a \<open>KeyError\<close>, and it ends
  with a result whenever the enumeration gave it a file list.
\<close>

theorem merge_into_never_raises:
  "(\<exists>part. scan_files w chunk keywords = Inr part \<and> fst ` set part = set keywords
       \<and> (\<forall>shared. fst ` set shared = set keywords
             \<longrightarrow> (\<exists>shared'. merge_into shared part = Inr shared'
                     \<and> fst ` set shared' = set keywords)))
   \<and> fst ` set (empty_result keywords) = set keywords
   \<and> (\<exists>res. thr_run w keywords chunks (empty_result keywords) = Inr res)
   \<and> (\<forall>missing. thr_main w dir keywords threads pattern sched \<noteq> Inl (KeyError missing))
   \<and> (enumerate_files w dir pattern = Inr files
        \<longrightarrow> (\<exists>res. thr_main w dir keywords threads pattern sched = Inr res))"
proof -
  have m: "\<exists>shared'. merge_into shared (tab (keys_of keywords) (\<lambda>k. hits w keywords k chunk)) = Inr shared'
           \<and> fst ` set shared' = set keywords"
    if "fst ` set shared = set keywords" for shared
    using merge_into_keys [of "tab (keys_of keywords) (\<lambda>k. hits w keywords k chunk)" shared] that
    by simp
  have no_key_error: "thr_main w dir keywords threads pattern sched \<noteq> Inl (KeyError missing)"
    for missing
  proof (cases "enumerate_files w dir pattern")
    case (Inl e)
    then show ?thesis by (simp add: thr_main_error)
  next
    case (Inr fs)
    then show ?thesis by (simp add: thr_main_tab)
  qed
  have ok: "\<exists>res. thr_main w dir keywords threads pattern sched = Inr res"
    if "enumerate_files w dir pattern = Inr files"
    using that by (simp add: thr_main_tab)
  from m no_key_error ok show ?thesis
    by (simp add: scan_files_tab empty_result_tab thr_run_tab)
qed

theorem merge_into_never_raises_witness:
  "fst ` set [(''rose'', [''data/c.txt''])] = set [''rose'']
   \<and> enumerate_files demo ''data'' ''**/*.txt''
       = Inr [''data/a.txt'', ''data/b.txt'', ''data/c.txt'', ''data/d.txt'']
   \<and> scan_files demo [''data/a.txt''] [''rose''] = Inr [(''rose'', [''data/a.txt''])]
   \<and> merge_into [(''rose'', [''data/c.txt''])] [(''rose'', [''data/a.txt''])]
       = Inr [(''rose'', [''data/c.txt'', ''data/a.txt''])]
   \<and> (\<exists>shared'. merge_into [(''rose'', [''data/c.txt''])] [(''rose'', [''data/a.txt''])] = Inr shared'
         \<and> fst ` set shared' = set [''rose''])
   \<and> (\<exists>res. thr_main demo ''data'' [''rose''] 3 ''**/*.txt'' rev = Inr res)"
proof -
  let ?F = "[''data/a.txt'', ''data/b.txt'', ''data/c.txt'', ''data/d.txt'']"
  have h: "fst ` set [(''rose'', [''data/c.txt''])] = set [''rose'']" by simp
  have s: "scan_files demo [''data/a.txt''] [''rose''] = Inr [(''rose'', [''data/a.txt''])]"
    by code_simp
  have m: "merge_into [(''rose'', [''data/c.txt''])] [(''rose'', [''data/a.txt''])]
       = Inr [(''rose'', [''data/c.txt'', ''data/a.txt''])]"
    by simp
  have "\<exists>part. scan_files demo [''data/a.txt''] [''rose''] = Inr part
          \<and> fst ` set part = set [''rose'']
          \<and> (\<forall>shared. fst ` set shared = set [''rose'']
                \<longrightarrow> (\<exists>shared'. merge_into shared part = Inr shared'
                        \<and> fst ` set shared' = set [''rose'']))"
    using merge_into_never_raises [of demo "[''data/a.txt'']" "[''rose'']"] by (rule conjunct1)
  then obtain part where pa: "scan_files demo [''data/a.txt''] [''rose''] = Inr part
          \<and> fst ` set part = set [''rose'']
          \<and> (\<forall>shared. fst ` set shared = set [''rose'']
                \<longrightarrow> (\<exists>shared'. merge_into shared part = Inr shared'
                        \<and> fst ` set shared' = set [''rose'']))"
    by (rule exE)
  from pa s have part: "part = [(''rose'', [''data/a.txt''])]" by simp
  from pa have "\<forall>shared. fst ` set shared = set [''rose'']
                \<longrightarrow> (\<exists>shared'. merge_into shared part = Inr shared'
                        \<and> fst ` set shared' = set [''rose''])"
    by (elim conjE)
  then have "fst ` set [(''rose'', [''data/c.txt''])] = set [''rose'']
                \<longrightarrow> (\<exists>shared'. merge_into [(''rose'', [''data/c.txt''])] part = Inr shared'
                        \<and> fst ` set shared' = set [''rose''])"
    by (rule spec)
  then have e: "\<exists>shared'. merge_into [(''rose'', [''data/c.txt''])] [(''rose'', [''data/a.txt''])] = Inr shared'
         \<and> fst ` set shared' = set [''rose'']"
    using h unfolding part by (rule mp)
  have "enumerate_files demo ''data'' ''**/*.txt'' = Inr ?F
        \<longrightarrow> (\<exists>res. thr_main demo ''data'' [''rose''] 3 ''**/*.txt'' rev = Inr res)"
    using merge_into_never_raises [of demo "[]" "[''rose'']" "[]" "''data''" 3 "''**/*.txt''" rev ?F]
    by (elim conjE)
  then have t: "\<exists>res. thr_main demo ''data'' [''rose''] 3 ''**/*.txt'' rev = Inr res"
    using demo_files by (rule mp)
  from h demo_files s m e t show ?thesis by (intro conjI)
qed

lemma mp_collect_empty:
  "mp_collect (map (\<lambda>chunk. mp_worker w chunk kwl) order) (empty_result kwl)
     = Inr (tab (keys_of kwl) (\<lambda>k. hits w kwl k (concat order)))"
  by (simp add: empty_result_tab mp_collect_tab)

lemma thr_run_empty:
  "thr_run w kwl order (empty_result kwl)
     = Inr (tab (keys_of kwl) (\<lambda>k. hits w kwl k (concat order)))"
  by (simp add: empty_result_tab thr_run_tab)

lemma paths_of_hits_sched:
  assumes "mset order = mset (chunked files W)"
  shows "mset (paths_of (tab (keys_of kwl) (\<lambda>k. hits w kwl k (concat order))) k)
       = mset (paths_of (tab (keys_of kwl) (\<lambda>k. hits w kwl k files)) k)"
  using mset_hits_sched [OF assms] by (simp add: paths_of_tab)

text \<open>
  C2. Fix the files and the keywords, and take two worker counts \<open>W1\<close> and \<open>W2\<close> (any
  integers, in particular any counts \<open>\<ge> 1\<close>). Merge the per-chunk results of \<open>scan_files\<close>
  over \<open>chunked files W1\<close>, in any order of arrival, with \<open>merge\<close> (as the multiprocessing
  driver does) or with \<open>merge_into\<close> (as the threading driver does), and do the same for
  \<open>W2\<close>. Both merges succeed, both give the same dictionary whichever of the two merge
  functions is used, and for every keyword the two results hold the same set of paths,
  which is the set \<open>scan_files\<close> finds on the whole list; the lists are even equal as
  multisets. Merged in the order of the chunks, the result is the very dictionary that
  \<open>scan_files\<close> returns for the whole list.
\<close>

theorem worker_count_invariance:
  assumes "mset order1 = mset (chunked files W1)" and "mset order2 = mset (chunked files W2)"
  shows "\<exists>r1 r2 whole.
       mp_collect (map (\<lambda>chunk. mp_worker w chunk keywords) order1) (empty_result keywords) = Inr r1
     \<and> thr_run w keywords order1 (empty_result keywords) = Inr r1
     \<and> mp_collect (map (\<lambda>chunk. mp_worker w chunk keywords) order2) (empty_result keywords) = Inr r2
     \<and> thr_run w keywords order2 (empty_result keywords) = Inr r2
     \<and> scan_files w files keywords = Inr whole
     \<and> map fst r1 = map fst whole \<and> map fst r2 = map fst whole
     \<and> (\<forall>k. set (paths_of r1 k) = set (paths_of r2 k)
            \<and> set (paths_of r1 k) = set (paths_of whole k)
            \<and> mset (paths_of r1 k) = mset (paths_of whole k)
            \<and> mset (paths_of r2 k) = mset (paths_of whole k))
     \<and> mp_collect (map (\<lambda>chunk. mp_worker w chunk keywords) (chunked files W1))
          (empty_result keywords) = Inr whole
     \<and> thr_run w keywords (chunked files W1) (empty_result keywords) = Inr whole"
proof -
  let ?r = "\<lambda>fs. tab (keys_of keywords) (\<lambda>k. hits w keywords k fs)"
  have m1: "mset (paths_of (?r (concat order1)) k) = mset (paths_of (?r files) k)" for k
    using assms(1) by (rule paths_of_hits_sched)
  have m2: "mset (paths_of (?r (concat order2)) k) = mset (paths_of (?r files) k)" for k
    using assms(2) by (rule paths_of_hits_sched)
  have s1: "set (paths_of (?r (concat order1)) k) = set (paths_of (?r files) k)" for k
    using m1 [of k] by (rule mset_eq_setD)
  have s2: "set (paths_of (?r (concat order2)) k) = set (paths_of (?r files) k)" for k
    using m2 [of k] by (rule mset_eq_setD)
  have "mp_collect (map (\<lambda>chunk. mp_worker w chunk keywords) order1) (empty_result keywords)
          = Inr (?r (concat order1))"
    by (rule mp_collect_empty)
  moreover have "thr_run w keywords order1 (empty_result keywords) = Inr (?r (concat order1))"
    by (rule thr_run_empty)
  moreover have "mp_collect (map (\<lambda>chunk. mp_worker w chunk keywords) order2) (empty_result keywords)
          = Inr (?r (concat order2))"
    by (rule mp_collect_empty)
  moreover have "thr_run w keywords order2 (empty_result keywords) = Inr (?r (concat order2))"
    by (rule thr_run_empty)
  moreover have "scan_files w files keywords = Inr (?r files)"
    by (rule scan_files_tab)
  moreover have "map fst (?r (concat order1)) = map fst (?r files)"
      "map fst (?r (concat order2)) = map fst (?r files)"
    by simp_all
  moreover have "\<forall>k. set (paths_of (?r (concat order1)) k) = set (paths_of (?r (concat order2)) k)
            \<and> set (paths_of (?r (concat order1)) k) = set (paths_of (?r files) k)
            \<and> mset (paths_of (?r (concat order1)) k) = mset (paths_of (?r files) k)
            \<and> mset (paths_of (?r (concat order2)) k) = mset (paths_of (?r files) k)"
    by (simp add: m1 m2 s1 s2)
  moreover have "mp_collect (map (\<lambda>chunk. mp_worker w chunk keywords) (chunked files W1))
          (empty_result keywords) = Inr (?r files)"
    by (simp add: mp_collect_empty concat_chunked)
  moreover have "thr_run w keywords (chunked files W1) (empty_result keywords) = Inr (?r files)"
    by (simp add: thr_run_empty concat_chunked)
  ultimately show ?thesis by (intro exI conjI)
qed


lemma demo_chunks_1:
  "chunked [''data/a.txt'', ''data/b.txt'', ''data/c.txt'', ''data/d.txt''] 1
     = [[''data/a.txt'', ''data/b.txt'', ''data/c.txt'', ''data/d.txt'']]"
  by code_simp

lemma demo_chunks_2:
  "chunked [''data/a.txt'', ''data/b.txt'', ''data/c.txt'', ''data/d.txt''] 2
     = [[''data/a.txt'', ''data/b.txt''], [''data/c.txt'', ''data/d.txt'']]"
  by code_simp

lemma demo_collect_1:
  "thr_run demo [''rose''] [[''data/a.txt'', ''data/b.txt'', ''data/c.txt'', ''data/d.txt'']]
     (empty_result [''rose'']) = Inr [(''rose'', [''data/a.txt'', ''data/c.txt''])]"
  by code_simp

lemma demo_collect_2:
  "mp_collect (map (\<lambda>chunk. mp_worker demo chunk [''rose''])
       [[''data/c.txt'', ''data/d.txt''], [''data/a.txt'', ''data/b.txt'']])
     (empty_result [''rose'']) = Inr [(''rose'', [''data/c.txt'', ''data/a.txt''])]"
  by code_simp

theorem worker_count_invariance_witness:
  "mset [[''data/a.txt'', ''data/b.txt'', ''data/c.txt'', ''data/d.txt'']]
     = mset (chunked [''data/a.txt'', ''data/b.txt'', ''data/c.txt'', ''data/d.txt''] 1)
   \<and> mset [[''data/c.txt'', ''data/d.txt''], [''data/a.txt'', ''data/b.txt'']]
     = mset (chunked [''data/a.txt'', ''data/b.txt'', ''data/c.txt'', ''data/d.txt''] 2)
   \<and> thr_run demo [''rose''] [[''data/a.txt'', ''data/b.txt'', ''data/c.txt'', ''data/d.txt'']]
        (empty_result [''rose'']) = Inr [(''rose'', [''data/a.txt'', ''data/c.txt''])]
   \<and> mp_collect (map (\<lambda>chunk. mp_worker demo chunk [''rose''])
          [[''data/c.txt'', ''data/d.txt''], [''data/a.txt'', ''data/b.txt'']])
        (empty_result [''rose'']) = Inr [(''rose'', [''data/c.txt'', ''data/a.txt''])]
   \<and> set (paths_of [(''rose'', [''data/a.txt'', ''data/c.txt''])] ''rose'')
     = set (paths_of [(''rose'', [''data/c.txt'', ''data/a.txt''])] ''rose'')"
proof -
  let ?F = "[''data/a.txt'', ''data/b.txt'', ''data/c.txt'', ''data/d.txt'']"
  let ?o1 = "[[''data/a.txt'', ''data/b.txt'', ''data/c.txt'', ''data/d.txt'']]"
  let ?o2 = "[[''data/c.txt'', ''data/d.txt''], [''data/a.txt'', ''data/b.txt'']]"
  have h1: "mset ?o1 = mset (chunked ?F 1)" by (simp only: demo_chunks_1)
  have h2: "mset ?o2 = mset (chunked ?F 2)"
    unfolding demo_chunks_2 by (simp add: add_mset_commute)
  from worker_count_invariance [OF h1 h2, of demo "[''rose'']"]
  obtain r1 r2 where
      t1: "thr_run demo [''rose''] ?o1 (empty_result [''rose'']) = Inr r1"
    and c2: "mp_collect (map (\<lambda>chunk. mp_worker demo chunk [''rose'']) ?o2)
               (empty_result [''rose'']) = Inr r2"
    and eq: "\<forall>k. set (paths_of r1 k) = set (paths_of r2 k)"
    by auto
  from t1 [unfolded demo_collect_1] have r1: "r1 = [(''rose'', [''data/a.txt'', ''data/c.txt''])]"
    by simp
  from c2 [unfolded demo_collect_2] have r2: "r2 = [(''rose'', [''data/c.txt'', ''data/a.txt''])]"
    by simp
  from eq have "set (paths_of r1 ''rose'') = set (paths_of r2 ''rose'')"
    by (rule spec)
  then have e: "set (paths_of [(''rose'', [''data/a.txt'', ''data/c.txt''])] ''rose'')
     = set (paths_of [(''rose'', [''data/c.txt'', ''data/a.txt''])] ''rose'')"
    unfolding r1 r2 .
  from h1 h2 demo_collect_1 demo_collect_2 e show ?thesis by (intro conjI)
qed

section \<open>The claims about the two drivers\<close>

lemma permutes_Nil: "permutes sched \<Longrightarrow> sched [] = []"
  using permutesD [of sched "[]"] by simp

lemma hits_Nil: "hits w kwl k [] = []"
  by (simp add: hits_def)

lemma mains_no_files:
  assumes "enumerate_files w dir pattern = Inr []" and "permutes sched"
  shows "mp_main w dir kwl procs pattern sched = Inr (empty_result kwl)"
    and "thr_main w dir kwl threads pattern sched = Inr (empty_result kwl)"
  using assms(2)
  by (simp_all add: mp_main_tab [OF assms(1)] thr_main_tab [OF assms(1)]
      chunked_Nil permutes_Nil hits_Nil empty_result_tab)




lemma enumerate_files_empty_dir:
  "pattern_error w pattern = None \<Longrightarrow> root_kind w dir = Directory \<Longrightarrow>
   matches w dir pattern = [] \<Longrightarrow> enumerate_files w dir pattern = Inr []"
  by (simp add: enumerate_files_def glob_def)

lemma empty_result_x: "empty_result [''x''] = [(''x'', [])]"
  by (simp add: empty_result_def)

text \<open>
  C3. For every directory content, keyword list, worker count and merge order, both
  drivers end with a dictionary whose keys are exactly the requested keywords, each
  once: every requested keyword is a key, also when nothing matched it, and there is no
  other key. For an empty directory and the keywords \<^verbatim>\<open>["x"]\<close> the result is
  \<^verbatim>\<open>{"x": []}\<close>. (The directory content is the file list that the enumeration gives.)
\<close>

theorem result_keys:
  "(enumerate_files w dir pattern = Inr files \<longrightarrow>
      (\<exists>res. mp_main w dir keywords procs pattern sched = Inr res
          \<and> fst ` set res = set keywords \<and> distinct (map fst res))
    \<and> (\<exists>res. thr_main w dir keywords threads pattern sched = Inr res
          \<and> fst ` set res = set keywords \<and> distinct (map fst res)))
   \<and> (permutes sched \<and> pattern_error w pattern = None
        \<and> root_kind w dir = Directory \<and> matches w dir pattern = []
        \<longrightarrow> mp_main w dir [''x''] procs pattern sched = Inr [(''x'', [])]
          \<and> thr_main w dir [''x''] threads pattern sched = Inr [(''x'', [])])"
proof -
  have x: "mp_main w dir [''x''] procs pattern sched = Inr [(''x'', [])]
          \<and> thr_main w dir [''x''] threads pattern sched = Inr [(''x'', [])]"
    if "permutes sched" "pattern_error w pattern = None" "root_kind w dir = Directory"
      "matches w dir pattern = []"
    using mains_no_files [OF enumerate_files_empty_dir [OF that(2) that(3) that(4)] that(1),
        of "[''x'']"]
    by (simp add: empty_result_x)
  have keys: "(\<exists>res. mp_main w dir keywords procs pattern sched = Inr res
          \<and> fst ` set res = set keywords \<and> distinct (map fst res))
    \<and> (\<exists>res. thr_main w dir keywords threads pattern sched = Inr res
          \<and> fst ` set res = set keywords \<and> distinct (map fst res))"
    if "enumerate_files w dir pattern = Inr files"
    by (simp add: mp_main_tab [OF that] thr_main_tab [OF that])
  show ?thesis
  proof (intro conjI impI)
    assume "enumerate_files w dir pattern = Inr files"
    then show "\<exists>res. mp_main w dir keywords procs pattern sched = Inr res
          \<and> fst ` set res = set keywords \<and> distinct (map fst res)"
      by (rule keys [THEN conjunct1])
  next
    assume "enumerate_files w dir pattern = Inr files"
    then show "\<exists>res. thr_main w dir keywords threads pattern sched = Inr res
          \<and> fst ` set res = set keywords \<and> distinct (map fst res)"
      by (rule keys [THEN conjunct2])
  next
    assume "permutes sched \<and> pattern_error w pattern = None
        \<and> root_kind w dir = Directory \<and> matches w dir pattern = []"
    then show "mp_main w dir [''x''] procs pattern sched = Inr [(''x'', [])]"
      using x by simp
  next
    assume "permutes sched \<and> pattern_error w pattern = None
        \<and> root_kind w dir = Directory \<and> matches w dir pattern = []"
    then show "thr_main w dir [''x''] threads pattern sched = Inr [(''x'', [])]"
      using x by simp
  qed
qed

lemma demo_empty_dir:
  "root_kind demo ''empty'' = Directory" "matches demo ''empty'' ''**/*.txt'' = []"
  "pattern_error demo ''**/*.txt'' = None"
  by (simp_all add: demo_def demo_kind_def demo_matches_def demo_pattern_error_def)

lemma demo_empty_files: "enumerate_files demo ''empty'' ''**/*.txt'' = Inr []"
  by code_simp

theorem result_keys_witness:
  "permutes rev \<and> pattern_error demo ''**/*.txt'' = None
   \<and> root_kind demo ''empty'' = Directory \<and> matches demo ''empty'' ''**/*.txt'' = []
   \<and> enumerate_files demo ''empty'' ''**/*.txt'' = Inr []
   \<and> mp_main demo ''empty'' [''x''] 0 ''**/*.txt'' rev = Inr [(''x'', [])]
   \<and> thr_main demo ''empty'' [''x''] 4 ''**/*.txt'' rev = Inr [(''x'', [])]
   \<and> (\<exists>res. mp_main demo ''empty'' [''x''] 0 ''**/*.txt'' rev = Inr res
         \<and> fst ` set res = set [''x''] \<and> distinct (map fst res))"
proof -
  have h: "permutes rev \<and> pattern_error demo ''**/*.txt'' = None
             \<and> root_kind demo ''empty'' = Directory
             \<and> matches demo ''empty'' ''**/*.txt'' = []"
    using permutes_rev demo_empty_dir by (intro conjI)
  have "permutes rev \<and> pattern_error demo ''**/*.txt'' = None
             \<and> root_kind demo ''empty'' = Directory
             \<and> matches demo ''empty'' ''**/*.txt'' = []
        \<longrightarrow> mp_main demo ''empty'' [''x''] 0 ''**/*.txt'' rev = Inr [(''x'', [])]
          \<and> thr_main demo ''empty'' [''x''] 4 ''**/*.txt'' rev = Inr [(''x'', [])]"
    using result_keys [of demo "''empty''" "''**/*.txt''" "[]" "[''x'']" 0 rev 4]
    by (rule conjunct2)
  then have r: "mp_main demo ''empty'' [''x''] 0 ''**/*.txt'' rev = Inr [(''x'', [])]
          \<and> thr_main demo ''empty'' [''x''] 4 ''**/*.txt'' rev = Inr [(''x'', [])]"
    using h by (rule mp)
  have "enumerate_files demo ''empty'' ''**/*.txt'' = Inr [] \<longrightarrow>
      (\<exists>res. mp_main demo ''empty'' [''x''] 0 ''**/*.txt'' rev = Inr res
          \<and> fst ` set res = set [''x''] \<and> distinct (map fst res))
    \<and> (\<exists>res. thr_main demo ''empty'' [''x''] 4 ''**/*.txt'' rev = Inr res
          \<and> fst ` set res = set [''x''] \<and> distinct (map fst res))"
    using result_keys [of demo "''empty''" "''**/*.txt''" "[]" "[''x'']" 0 rev 4]
    by (rule conjunct1)
  then have "(\<exists>res. mp_main demo ''empty'' [''x''] 0 ''**/*.txt'' rev = Inr res
          \<and> fst ` set res = set [''x''] \<and> distinct (map fst res))
    \<and> (\<exists>res. thr_main demo ''empty'' [''x''] 4 ''**/*.txt'' rev = Inr res
          \<and> fst ` set res = set [''x''] \<and> distinct (map fst res))"
    using demo_empty_files by (rule mp)
  then have k: "\<exists>res. mp_main demo ''empty'' [''x''] 0 ''**/*.txt'' rev = Inr res
          \<and> fst ` set res = set [''x''] \<and> distinct (map fst res)"
    by (rule conjunct1)
  from h r demo_empty_files k show ?thesis by (intro conjI) (elim conjE, assumption)+
qed

text \<open>
  C6. For every directory content, keyword list and worker counts, and whatever the
  order in which the workers deliver, the threading variant and the multiprocessing
  variant both end with a result, with the same keys in the same order, and for every
  keyword their path lists hold the same paths, equally often: the lists are equal up to
  their order. (Where the enumeration raises instead of giving a file list, both
  variants end with that same error.)
\<close>

theorem variants_agree:
  assumes "permutes sched_thr" and "permutes sched_mp"
  shows "(enumerate_files w dir pattern = Inr files \<longrightarrow>
           (\<exists>rt rp. thr_main w dir keywords threads pattern sched_thr = Inr rt
              \<and> mp_main w dir keywords procs pattern sched_mp = Inr rp
              \<and> map fst rt = map fst rp
              \<and> (\<forall>k. set (paths_of rt k) = set (paths_of rp k)
                     \<and> mset (paths_of rt k) = mset (paths_of rp k))))
       \<and> (enumerate_files w dir pattern = Inl e \<longrightarrow>
             thr_main w dir keywords threads pattern sched_thr = Inl (GlobError e)
           \<and> mp_main w dir keywords procs pattern sched_mp = Inl (GlobError e))"
proof -
  have agree: "\<exists>rt rp. thr_main w dir keywords threads pattern sched_thr = Inr rt
              \<and> mp_main w dir keywords procs pattern sched_mp = Inr rp
              \<and> map fst rt = map fst rp
              \<and> (\<forall>k. set (paths_of rt k) = set (paths_of rp k)
                     \<and> mset (paths_of rt k) = mset (paths_of rp k))"
    if en: "enumerate_files w dir pattern = Inr files"
  proof -
    let ?r = "\<lambda>fs. tab (keys_of keywords) (\<lambda>k. hits w keywords k fs)"
    let ?ft = "concat (sched_thr (chunked files threads))"
    let ?fp = "concat (sched_mp (chunked files (if procs \<noteq> 0 then procs else cpu_count w)))"
    have mt: "mset (paths_of (?r ?ft) k) = mset (paths_of (?r files) k)" for k
      by (rule paths_of_hits_sched) (rule permutesD [OF assms(1)])
    have mp: "mset (paths_of (?r ?fp) k) = mset (paths_of (?r files) k)" for k
      by (rule paths_of_hits_sched) (rule permutesD [OF assms(2)])
    have m: "mset (paths_of (?r ?ft) k) = mset (paths_of (?r ?fp) k)" for k
      by (simp only: mt mp)
    have s: "set (paths_of (?r ?ft) k) = set (paths_of (?r ?fp) k)" for k
      using m [of k] by (rule mset_eq_setD)
    have "thr_main w dir keywords threads pattern sched_thr = Inr (?r ?ft)"
      using en by (rule thr_main_tab)
    moreover have "mp_main w dir keywords procs pattern sched_mp = Inr (?r ?fp)"
      using en by (rule mp_main_tab)
    moreover have "map fst (?r ?ft) = map fst (?r ?fp)" by simp
    moreover have "\<forall>k. set (paths_of (?r ?ft) k) = set (paths_of (?r ?fp) k)
                \<and> mset (paths_of (?r ?ft) k) = mset (paths_of (?r ?fp) k)"
      using m s by simp
    ultimately show ?thesis by (intro exI conjI)
  qed
  have fail: "thr_main w dir keywords threads pattern sched_thr = Inl (GlobError e)
           \<and> mp_main w dir keywords procs pattern sched_mp = Inl (GlobError e)"
    if "enumerate_files w dir pattern = Inl e"
    using that by (simp add: thr_main_error mp_main_error)
  have "enumerate_files w dir pattern = Inr files \<longrightarrow>
           (\<exists>rt rp. thr_main w dir keywords threads pattern sched_thr = Inr rt
              \<and> mp_main w dir keywords procs pattern sched_mp = Inr rp
              \<and> map fst rt = map fst rp
              \<and> (\<forall>k. set (paths_of rt k) = set (paths_of rp k)
                     \<and> mset (paths_of rt k) = mset (paths_of rp k)))"
    by (intro impI, rule agree)
  moreover have "enumerate_files w dir pattern = Inl e \<longrightarrow>
             thr_main w dir keywords threads pattern sched_thr = Inl (GlobError e)
           \<and> mp_main w dir keywords procs pattern sched_mp = Inl (GlobError e)"
    by (intro impI, rule fail)
  ultimately show ?thesis by (intro conjI)
qed

lemma permutes_id: "permutes (\<lambda>chunks. chunks)"
  by (simp add: permutes_def)

lemma demo_thr_id: "thr_main demo ''data'' [''rose''] 3 ''**/*.txt'' (\<lambda>chunks. chunks)
     = Inr [(''rose'', [''data/a.txt'', ''data/c.txt''])]"
  by code_simp

lemma demo_locked: "enumerate_files demo ''locked/data'' ''**/*.txt'' = Inl RootOSError"
  by code_simp

theorem variants_agree_witness:
  "permutes (\<lambda>chunks. chunks) \<and> permutes rev
   \<and> enumerate_files demo ''data'' ''**/*.txt''
       = Inr [''data/a.txt'', ''data/b.txt'', ''data/c.txt'', ''data/d.txt'']
   \<and> thr_main demo ''data'' [''rose''] 3 ''**/*.txt'' (\<lambda>chunks. chunks)
       = Inr [(''rose'', [''data/a.txt'', ''data/c.txt''])]
   \<and> mp_main demo ''data'' [''rose''] 0 ''**/*.txt'' rev
       = Inr [(''rose'', [''data/c.txt'', ''data/a.txt''])]
   \<and> mset (paths_of [(''rose'', [''data/a.txt'', ''data/c.txt''])] ''rose'')
       = mset (paths_of [(''rose'', [''data/c.txt'', ''data/a.txt''])] ''rose'')
   \<and> enumerate_files demo ''locked/data'' ''**/*.txt'' = Inl RootOSError
   \<and> thr_main demo ''locked/data'' [''rose''] 3 ''**/*.txt'' (\<lambda>chunks. chunks)
       = Inl (GlobError RootOSError)
   \<and> mp_main demo ''locked/data'' [''rose''] 0 ''**/*.txt'' rev = Inl (GlobError RootOSError)"
proof -
  let ?F = "[''data/a.txt'', ''data/b.txt'', ''data/c.txt'', ''data/d.txt'']"
  have "enumerate_files demo ''data'' ''**/*.txt'' = Inr ?F \<longrightarrow>
           (\<exists>rt rp. thr_main demo ''data'' [''rose''] 3 ''**/*.txt'' (\<lambda>chunks. chunks) = Inr rt
              \<and> mp_main demo ''data'' [''rose''] 0 ''**/*.txt'' rev = Inr rp
              \<and> map fst rt = map fst rp
              \<and> (\<forall>k. set (paths_of rt k) = set (paths_of rp k)
                     \<and> mset (paths_of rt k) = mset (paths_of rp k)))"
    using variants_agree [OF permutes_id permutes_rev,
        of demo "''data''" "''**/*.txt''" ?F "[''rose'']" 3 0 RootOSError]
    by (rule conjunct1)
  then have "\<exists>rt rp. thr_main demo ''data'' [''rose''] 3 ''**/*.txt'' (\<lambda>chunks. chunks) = Inr rt
              \<and> mp_main demo ''data'' [''rose''] 0 ''**/*.txt'' rev = Inr rp
              \<and> map fst rt = map fst rp
              \<and> (\<forall>k. set (paths_of rt k) = set (paths_of rp k)
                     \<and> mset (paths_of rt k) = mset (paths_of rp k))"
    using demo_files by (rule mp)
  then obtain rt rp where
      t: "thr_main demo ''data'' [''rose''] 3 ''**/*.txt'' (\<lambda>chunks. chunks) = Inr rt"
    and p: "mp_main demo ''data'' [''rose''] 0 ''**/*.txt'' rev = Inr rp"
    and eq: "\<forall>k. set (paths_of rt k) = set (paths_of rp k)
              \<and> mset (paths_of rt k) = mset (paths_of rp k)"
    by (elim exE conjE)
  from t [unfolded demo_thr_id] have rt: "rt = [(''rose'', [''data/a.txt'', ''data/c.txt''])]"
    by simp
  from p [unfolded demo_mp] have rp: "rp = [(''rose'', [''data/c.txt'', ''data/a.txt''])]"
    by simp
  from eq have "set (paths_of rt ''rose'') = set (paths_of rp ''rose'')
              \<and> mset (paths_of rt ''rose'') = mset (paths_of rp ''rose'')"
    by (rule spec)
  then have e: "mset (paths_of [(''rose'', [''data/a.txt'', ''data/c.txt''])] ''rose'')
       = mset (paths_of [(''rose'', [''data/c.txt'', ''data/a.txt''])] ''rose'')"
    unfolding rt rp by (rule conjunct2)
  have "enumerate_files demo ''locked/data'' ''**/*.txt'' = Inl RootOSError \<longrightarrow>
             thr_main demo ''locked/data'' [''rose''] 3 ''**/*.txt'' (\<lambda>chunks. chunks)
               = Inl (GlobError RootOSError)
           \<and> mp_main demo ''locked/data'' [''rose''] 0 ''**/*.txt'' rev
               = Inl (GlobError RootOSError)"
    using variants_agree [OF permutes_id permutes_rev,
        of demo "''locked/data''" "''**/*.txt''" "[]" "[''rose'']" 3 0 RootOSError]
    by (rule conjunct2)
  then have l: "thr_main demo ''locked/data'' [''rose''] 3 ''**/*.txt'' (\<lambda>chunks. chunks)
               = Inl (GlobError RootOSError)
           \<and> mp_main demo ''locked/data'' [''rose''] 0 ''**/*.txt'' rev
               = Inl (GlobError RootOSError)"
    using demo_locked by (rule mp)
  from permutes_id permutes_rev demo_files demo_thr_id demo_mp e demo_locked l
  show ?thesis by (intro conjI) (elim conjE, assumption)+
qed








end
